theory Spec2Isabelle
  imports Main "HOL-Library.AList"
begin

section \<open>Python values: exceptions, list indexing, loops\<close>

text \<open>
  The exceptions that the modelled code can raise. A function that can raise returns
  \<open>py_error + 'a\<close>, with \<open>Inl\<close> carrying the exception.
\<close>

datatype py_error = IndexError | KeyError | ValueError | MemoryError

definition ebind :: "py_error + 'a \<Rightarrow> ('a \<Rightarrow> py_error + 'b) \<Rightarrow> py_error + 'b" where
  "ebind m f = (case m of Inl e \<Rightarrow> Inl e | Inr x \<Rightarrow> f x)"

text \<open>A \<open>for\<close> loop over a list whose body may raise: the first exception ends the loop.\<close>

fun efold :: "('a \<Rightarrow> 's \<Rightarrow> py_error + 's) \<Rightarrow> 'a list \<Rightarrow> 's \<Rightarrow> py_error + 's" where
  "efold f [] s = Inr s"
| "efold f (x # xs) s = (case f x s of Inl e \<Rightarrow> Inl e | Inr s' \<Rightarrow> efold f xs s')"

text \<open>
  Python list indexing: an index \<open>i\<close> with \<open>0 \<le> i < len\<close> is used as it is, an index
  with \<open>-len \<le> i < 0\<close> counts from the end, every other index raises IndexError.
\<close>

definition norm_index :: "nat \<Rightarrow> int \<Rightarrow> nat option" where
  "norm_index len i =
     (if 0 \<le> i \<and> i < int len then Some (nat i)
      else if i < 0 \<and> - int len \<le> i then Some (nat (int len + i))
      else None)"

definition getitem :: "'a list \<Rightarrow> int \<Rightarrow> py_error + 'a" where
  "getitem xs i =
     (case norm_index (length xs) i of None \<Rightarrow> Inl IndexError | Some k \<Rightarrow> Inr (xs ! k))"

definition setitem :: "'a list \<Rightarrow> int \<Rightarrow> 'a \<Rightarrow> py_error + 'a list" where
  "setitem xs i v =
     (case norm_index (length xs) i of None \<Rightarrow> Inl IndexError | Some k \<Rightarrow> Inr (xs[k := v]))"

section \<open>gamelife\_core: grids\<close>

text \<open>
  A grid is a list of rows of Python ints. The rows of a grid are separate list objects
  (\<open>make_grid\<close> builds each row anew, snapshots copy each row, JSON loading builds new
  lists), and \<open>T\<close> and \<open>Tnext\<close> are separate grids, so a grid is modelled by its value.
\<close>

type_synonym grid = "int list list"

text \<open>\<open>g[i][j]\<close> and \<open>g[i][j] = v\<close>.\<close>

definition grid_get :: "grid \<Rightarrow> int \<Rightarrow> int \<Rightarrow> py_error + int" where
  "grid_get g i j = ebind (getitem g i) (\<lambda>row. getitem row j)"

definition grid_set :: "grid \<Rightarrow> int \<Rightarrow> int \<Rightarrow> int \<Rightarrow> py_error + grid" where
  "grid_set g i j v =
     ebind (getitem g i) (\<lambda>row. ebind (setitem row j v) (\<lambda>row'. setitem g i row'))"

text \<open>\<open>make_grid(size)\<close>: \<open>[[0] * (size + 2) for _ in range(size + 2)]\<close>.\<close>

definition make_grid :: "int \<Rightarrow> grid" where
  "make_grid sz = replicate (nat (sz + 2)) (replicate (nat (sz + 2)) 0)"

text \<open>
  The positions visited by \<open>for i in range(1, n + 1): for j in range(1, n + 1)\<close>, in the
  order of the two nested loops.
\<close>

definition interior :: "int \<Rightarrow> (int \<times> int) list" where
  "interior n = concat (map (\<lambda>i. map (\<lambda>j. (i, j)) [1..n]) [1..n])"

section \<open>gamelife\_core and history\_manager: the module state\<close>

text \<open>
  The module-level variables of \<open>gamelife_core\<close> (\<open>T\<close>, \<open>Tnext\<close>, \<open>n\<close>, \<open>gen_counter\<close> and
  the events \<open>running\<close>, \<open>step_event\<close>, \<open>redraw_event\<close>) and of \<open>history_manager\<close>
  (\<open>generation_history\<close>). The dictionary is an association list in insertion order with
  one entry per key: \<open>AList.update\<close> replaces the value of a present key in place and
  appends a new key, as a Python dict does. The speed, the thread list and the barrier
  object are left out: the functions below neither read nor write them, the pacing delay
  apart.
\<close>

record state =
  core_T :: grid
  core_Tnext :: grid
  core_n :: int
  gen_counter :: int
  generation_history :: "(int \<times> grid) list"
  running :: bool
  step_event :: bool
  redraw_event :: bool

text \<open>
  \<open>has_living_cells()\<close>: the two nested loops over the interior, returning True at the
  first cell equal to 1.
\<close>

fun any_alive :: "grid \<Rightarrow> (int \<times> int) list \<Rightarrow> py_error + bool" where
  "any_alive g [] = Inr False"
| "any_alive g (p # ps) =
     (case grid_get g (fst p) (snd p) of
        Inl e \<Rightarrow> Inl e
      | Inr v \<Rightarrow> if v = 1 then Inr True else any_alive g ps)"

definition has_living_cells :: "state \<Rightarrow> py_error + bool" where
  "has_living_cells s = any_alive (core_T s) (interior (core_n s))"

text \<open>\<open>clear_grid(grid)\<close>: every interior cell is set to 0.\<close>

definition clear_grid :: "int \<Rightarrow> grid \<Rightarrow> py_error + grid" where
  "clear_grid n g = efold (\<lambda>p g. grid_set g (fst p) (snd p) 0) (interior n) g"

section \<open>history\_manager: recording snapshots\<close>

definition MAX_HISTORY_GENERATIONS :: nat where
  "MAX_HISTORY_GENERATIONS = 100"

text \<open>
  \<open>save_state_to_history()\<close>. Nothing happens when \<open>core.T\<close> is empty. The copy
  \<open>[row[:] for row in core.T]\<close> is the grid's value. \<open>min\<close> is taken only when the
  dictionary has more than 100 entries, so it never sees an empty key set.
\<close>

definition save_state_to_history :: "state \<Rightarrow> state" where
  "save_state_to_history s =
     (if core_T s = [] then s
      else
        let st = map (\<lambda>row. row) (core_T s);
            h = AList.update (gen_counter s) st (generation_history s)
        in if length h > MAX_HISTORY_GENERATIONS
           then s\<lparr>generation_history := AList.delete (Min (set (map fst h))) h\<rparr>
           else s\<lparr>generation_history := h\<rparr>)"

section \<open>gamelife\_core: the barrier action\<close>

text \<open>The block under \<open>swap_lock\<close>: \<open>T, Tnext = Tnext, T\<close> and \<open>gen_counter += 1\<close>.\<close>

definition swap_grids :: "state \<Rightarrow> state" where
  "swap_grids s =
     s\<lparr>core_T := core_Tnext s, core_Tnext := core_T s, gen_counter := gen_counter s + 1\<rparr>"

text \<open>
  The rest of \<open>barrier_action\<close> after the snapshot: \<open>redraw_event.set()\<close>, and in step mode
  \<open>running.clear()\<close> and \<open>step_event.clear()\<close>. The pacing \<open>time.sleep\<close> changes no
  variable and is left out.
\<close>

definition after_snapshot :: "state \<Rightarrow> state" where
  "after_snapshot s =
     (let s1 = s\<lparr>redraw_event := True\<rparr>
      in if step_event s1 then s1\<lparr>running := False, step_event := False\<rparr> else s1)"

text \<open>
  \<open>barrier_action()\<close>. The function has no \<open>try\<close>. Its argument \<open>fault\<close> is the
  exception, if any, that the call \<open>save_state_to_history()\<close> raises (the copy of the grid
  can run out of memory); the result is the exception that leaves \<open>barrier_action\<close>, if
  any, with the module state at that moment.
\<close>

definition barrier_action :: "py_error option \<Rightarrow> state \<Rightarrow> py_error option \<times> state" where
  "barrier_action fault s =
     (let s1 = swap_grids s
      in case fault of
           Some e \<Rightarrow> (Some e, s1)
         | None \<Rightarrow> (None, after_snapshot (save_state_to_history s1)))"

section \<open>history\_manager: undo and redo\<close>

text \<open>
  The copy loop of \<open>load_state_from_history\<close>:
  \<open>for i in range(len(state)): for j in range(len(state[i])): core.T[i][j] = state[i][j]\<close>.
  The reads of \<open>state\<close> are in range by the loop bounds; the write raises IndexError when
  the live grid has no cell there.
\<close>

definition cells_of :: "grid \<Rightarrow> (nat \<times> nat) list" where
  "cells_of g = concat (map (\<lambda>i. map (\<lambda>j. (i, j)) [0..<length (g ! i)]) [0..<length g])"

definition copy_cells :: "grid \<Rightarrow> grid \<Rightarrow> py_error + grid" where
  "copy_cells st g =
     efold (\<lambda>p g. grid_set g (int (fst p)) (int (snd p)) (st ! fst p ! snd p)) (cells_of st) g"

text \<open>
  \<open>load_state_from_history(direction)\<close>: the returned boolean with the new module state,
  or the exception raised: the IndexError of the copy loop, or the KeyError of
  \<open>generation_history[target_gen]\<close> (the target is taken from the keys, so this one does not
  occur).
\<close>

definition load_state_from_history :: "string \<Rightarrow> state \<Rightarrow> py_error + (bool \<times> state)" where
  "load_state_from_history direction s =
     (if generation_history s = [] then Inr (False, s)
      else
        let available_gens = sort (map fst (generation_history s));
            target =
              (if direction = ''undo'' then
                 (let previous_gens = filter (\<lambda>g. g < gen_counter s) available_gens
                  in if previous_gens \<noteq> [] then Some (last previous_gens) else None)
               else if direction = ''redo'' then
                 (let next_gens = filter (\<lambda>g. g > gen_counter s) available_gens
                  in if next_gens \<noteq> [] then Some (hd next_gens) else None)
               else None)
        in case target of
             None \<Rightarrow> Inr (False, s)
           | Some target_gen \<Rightarrow>
               (case map_of (generation_history s) target_gen of
                  None \<Rightarrow> Inl KeyError
                | Some st \<Rightarrow>
                    ebind (copy_cells st (core_T s))
                      (\<lambda>g. Inr (True, s\<lparr>core_T := g, gen_counter := target_gen,
                                         redraw_event := True\<rparr>))))"



section \<open>gamelife\_core: the cells' computation\<close>

text \<open>
  One pass of the body of \<open>cell_thread(i, j)\<close>, after the wait for \<open>running\<close> and
  before the barrier: the eight neighbour reads of \<open>T\<close> in the order of the source, their sum, the read of
  the cell itself and the write into \<open>Tnext\<close>. \<open>neighbors in (2, 3)\<close> is
  \<open>neighbors == 2 or neighbors == 3\<close>. An IndexError ends the thread (it is caught and
  printed by \<open>cell_thread\<close>, and the thread never reaches the barrier).
\<close>

definition cell_compute :: "int \<Rightarrow> int \<Rightarrow> state \<Rightarrow> py_error + state" where
  "cell_compute i j s =
     (let T = core_T s in
      ebind (grid_get T (i - 1) (j - 1)) (\<lambda>a.
      ebind (grid_get T (i - 1) j) (\<lambda>b.
      ebind (grid_get T (i - 1) (j + 1)) (\<lambda>c.
      ebind (grid_get T i (j - 1)) (\<lambda>d.
      ebind (grid_get T i (j + 1)) (\<lambda>e.
      ebind (grid_get T (i + 1) (j - 1)) (\<lambda>f.
      ebind (grid_get T (i + 1) j) (\<lambda>g.
      ebind (grid_get T (i + 1) (j + 1)) (\<lambda>h.
        let neighbors = a + b + c + d + e + f + g + h in
        ebind (grid_get T i j) (\<lambda>self.
          let v = (if self = 1 then (if neighbors = 2 \<or> neighbors = 3 then 1 else 0)
                   else (if neighbors = 3 then 1 else 0))
          in ebind (grid_set (core_Tnext s) i j v)
               (\<lambda>g'. Inr (s\<lparr>core_Tnext := g'\<rparr>))))))))))))"

text \<open>
  One round of all the cell threads. Each thread reads \<open>T\<close> only and writes its own cell
  of \<open>Tnext\<close>, so the round is a sequence of the threads' passes; \<open>run_cells\<close> takes the
  order as a list of cells, and \<open>compute_round\<close> uses the order in which
  \<open>start_workers\<close> creates the threads.
\<close>

definition run_cells :: "(int \<times> int) list \<Rightarrow> state \<Rightarrow> py_error + state" where
  "run_cells ps s = efold (\<lambda>p s. cell_compute (fst p) (snd p) s) ps s"

definition compute_round :: "state \<Rightarrow> py_error + state" where
  "compute_round s = run_cells (interior (core_n s)) s"

text \<open>
  One generation: the round, then the barrier action run by the last thread to arrive
  (here with a snapshot that does not raise).
\<close>

definition generation_step :: "state \<Rightarrow> py_error + state" where
  "generation_step s =
     ebind (compute_round s)
       (\<lambda>s1. case barrier_action None s1 of
                (None, s2) \<Rightarrow> Inr s2
              | (Some e, s2) \<Rightarrow> Inl e)"

section \<open>history\_manager: the history file\<close>

text \<open>
  \<open>str\<close> of an int, and \<open>int\<close> of a string. \<open>py_int\<close> covers an optional sign followed
  by ASCII decimal digits, which is every string that \<open>str\<close> produces; the other forms
  that Python's \<open>int\<close> accepts (surrounding whitespace, underscores between digits,
  non-ASCII digits) are outside this model and nothing below depends on them.
\<close>

definition digit_char :: "nat \<Rightarrow> char" where
  "digit_char d = char_of (48 + d)"

definition digit_val :: "char \<Rightarrow> nat option" where
  "digit_val c =
     (let k = (of_char c :: nat) in if 48 \<le> k \<and> k \<le> 57 then Some (k - 48) else None)"

fun str_nat :: "nat \<Rightarrow> string" where
  "str_nat n = (if n < 10 then [digit_char n] else str_nat (n div 10) @ [digit_char (n mod 10)])"

declare str_nat.simps [simp del]

definition py_str :: "int \<Rightarrow> string" where
  "py_str i = (if i < 0 then CHR ''-'' # str_nat (nat (- i)) else str_nat (nat i))"

fun parse_digits :: "nat \<Rightarrow> string \<Rightarrow> nat option" where
  "parse_digits acc [] = Some acc"
| "parse_digits acc (c # cs) =
     (case digit_val c of None \<Rightarrow> None | Some d \<Rightarrow> parse_digits (10 * acc + d) cs)"

definition py_int :: "string \<Rightarrow> py_error + int" where
  "py_int str =
     (case str of
        [] \<Rightarrow> Inl ValueError
      | c # cs \<Rightarrow>
          if c = CHR ''-'' then
            (if cs = [] then Inl ValueError
             else case parse_digits 0 cs of
                    None \<Rightarrow> Inl ValueError | Some m \<Rightarrow> Inr (- int m))
          else if c = CHR ''+'' then
            (if cs = [] then Inl ValueError
             else case parse_digits 0 cs of
                    None \<Rightarrow> Inl ValueError | Some m \<Rightarrow> Inr (int m))
          else (case parse_digits 0 str of
                  None \<Rightarrow> Inl ValueError | Some m \<Rightarrow> Inr (int m)))"

text \<open>
  The JSON document of the history file, as \<open>json.load\<close> returns it: the three keys
  \<open>history\<close>, \<open>current_gen\<close> and \<open>grid_state\<close>, each of which can be absent. The file
  itself is missing, unreadable, or holds a document.
\<close>

record history_doc =
  doc_history :: "(string \<times> grid) list option"
  doc_current_gen :: "int option"
  doc_grid_state :: "grid option"

datatype history_file = Missing | Corrupt | Document history_doc

text \<open>
  \<open>save_history_to_file()\<close>. \<open>io_ok\<close> tells whether opening and writing the file
  succeed; a failure is swallowed by the \<open>except\<close> and the file is taken to stay as it
  was. The dict comprehension inserts the items in order.
\<close>

definition save_history_to_file :: "bool \<Rightarrow> state \<Rightarrow> history_file \<Rightarrow> history_file" where
  "save_history_to_file io_ok s file =
     (if io_ok then
        let history_data =
              fold (\<lambda>item d. AList.update (py_str (fst item)) (snd item) d)
                (generation_history s) []
        in Document \<lparr>doc_history = Some history_data,
                      doc_current_gen = Some (gen_counter s),
                      doc_grid_state = Some (core_T s)\<rparr>
      else file)"

text \<open>
  The restoring loop of \<open>load_history_from_file\<close>: every cell of the saved grid is
  written into the live grid when the live grid has that position.
\<close>

definition restore_clipped :: "grid \<Rightarrow> grid \<Rightarrow> py_error + grid" where
  "restore_clipped saved_grid g =
     efold (\<lambda>p g. if fst p < length g \<and> snd p < length (g ! fst p)
                   then grid_set g (int (fst p)) (int (snd p)) (saved_grid ! fst p ! snd p)
                   else Inr g)
       (cells_of saved_grid) g"

text \<open>
  \<open>load_history_from_file()\<close>. Every exception is swallowed by \<open>except Exception: pass\<close>:
  a ValueError of \<open>int(gen)\<close> is raised before any variable is assigned and leaves the
  state as it was. The guard of the restoring loop rules an IndexError out (see
  \<open>restore_clipped_cells\<close>), so that branch keeps the state reached before the loop.
\<close>

definition load_history_from_file :: "history_file \<Rightarrow> state \<Rightarrow> state" where
  "load_history_from_file file s =
     (case file of
        Missing \<Rightarrow> s
      | Corrupt \<Rightarrow> s
      | Document data \<Rightarrow>
          (let history_data = (case doc_history data of None \<Rightarrow> [] | Some h \<Rightarrow> h)
           in (case efold (\<lambda>item d. ebind (py_int (fst item))
                                      (\<lambda>gen. Inr (AList.update gen (snd item) d)))
                     history_data [] of
                 Inl e \<Rightarrow> s
               | Inr h \<Rightarrow>
                   (let s1 = s\<lparr>generation_history := h,
                               gen_counter :=
                                 (case doc_current_gen data of None \<Rightarrow> 0 | Some g \<Rightarrow> g)\<rparr>
                    in (case doc_grid_state data of
                          None \<Rightarrow> s1
                        | Some saved_grid \<Rightarrow>
                            (if saved_grid \<noteq> [] \<and> core_T s1 \<noteq> [] then
                               (case restore_clipped saved_grid (core_T s1) of
                                  Inl e \<Rightarrow> s1
                                | Inr g \<Rightarrow> s1\<lparr>core_T := g\<rparr>)
                             else s1))))))"

section \<open>Notions used in the properties\<close>

subsection \<open>Positions and shapes\<close>

text \<open>
  \<open>in_grid g p\<close>: the position \<open>p\<close> is a cell of \<open>g\<close>, with non-negative indices. \<open>put\<close> is the
  grid after the write \<open>g[i][j] = v\<close> at such a position. \<open>grid_shape n g\<close>: the grid has
  \<open>n + 2\<close> rows of \<open>n + 2\<close> cells. \<open>binary_cells\<close>: every cell is 0 or 1.
  \<open>dead_border n g\<close>: the cells with an index 0 or \<open>n + 1\<close> are 0. \<open>grid_fn n c\<close> is the grid of
  that shape whose cell \<open>(i, j)\<close> is \<open>c i j\<close>.
\<close>

definition in_grid :: "grid \<Rightarrow> int \<times> int \<Rightarrow> bool" where
  "in_grid g p =
     (0 \<le> fst p \<and> nat (fst p) < length g \<and> 0 \<le> snd p \<and> nat (snd p) < length (g ! nat (fst p)))"

definition put :: "grid \<Rightarrow> int \<times> int \<Rightarrow> int \<Rightarrow> grid" where
  "put g p v = g[nat (fst p) := (g ! nat (fst p))[nat (snd p) := v]]"

definition grid_shape :: "int \<Rightarrow> grid \<Rightarrow> bool" where
  "grid_shape n g = (length g = nat (n + 2) \<and> (\<forall>row\<in>set g. length row = nat (n + 2)))"

definition binary_cells :: "grid \<Rightarrow> bool" where
  "binary_cells g = (\<forall>row\<in>set g. \<forall>v\<in>set row. v = 0 \<or> v = 1)"

definition dead_border :: "int \<Rightarrow> grid \<Rightarrow> bool" where
  "dead_border n g =
     (\<forall>i\<in>set [0..n + 1]. \<forall>j\<in>set [0..n + 1].
        (i = 0 \<or> i = n + 1 \<or> j = 0 \<or> j = n + 1) \<longrightarrow> g ! nat i ! nat j = 0)"

definition grid_fn :: "int \<Rightarrow> (int \<Rightarrow> int \<Rightarrow> int) \<Rightarrow> grid" where
  "grid_fn n c = map (\<lambda>i. map (\<lambda>j. c i j) [0..n + 1]) [0..n + 1]"

subsection \<open>Conway's rule\<close>

text \<open>
  The rule as the specification words it: \<open>alive_neighbours\<close> counts the neighbours that are
  alive (equal to 1), and \<open>conway_update\<close> is 1 for an alive cell with 2 or 3 alive neighbours,
  1 for a dead cell with exactly 3, and 0 otherwise.
\<close>

definition alive_neighbours :: "grid \<Rightarrow> int \<Rightarrow> int \<Rightarrow> nat" where
  "alive_neighbours g i j =
     length (filter (\<lambda>p. g ! nat (fst p) ! nat (snd p) = 1)
       [(i - 1, j - 1), (i - 1, j), (i - 1, j + 1), (i, j - 1), (i, j + 1),
        (i + 1, j - 1), (i + 1, j), (i + 1, j + 1)])"

definition conway_update :: "grid \<Rightarrow> int \<Rightarrow> int \<Rightarrow> int" where
  "conway_update g i j =
     (let alive = (g ! nat i ! nat j = 1); k = alive_neighbours g i j
      in if alive \<and> (k = 2 \<or> k = 3) then 1 else if \<not> alive \<and> k = 3 then 1 else 0)"

text \<open>
  The value that \<open>cell_compute\<close> writes, read off the code: the neighbours are summed, not
  counted. \<open>rule_of\<close> is the same computation on a cell function.
\<close>

definition code_value :: "grid \<Rightarrow> int \<times> int \<Rightarrow> int" where
  "code_value T p =
     (let i = fst p; j = snd p;
          neighbors = T ! nat (i - 1) ! nat (j - 1) + T ! nat (i - 1) ! nat j
            + T ! nat (i - 1) ! nat (j + 1) + T ! nat i ! nat (j - 1) + T ! nat i ! nat (j + 1)
            + T ! nat (i + 1) ! nat (j - 1) + T ! nat (i + 1) ! nat j
            + T ! nat (i + 1) ! nat (j + 1)
      in if T ! nat i ! nat j = 1 then (if neighbors = 2 \<or> neighbors = 3 then 1 else 0)
         else (if neighbors = 3 then 1 else 0))"

definition rule_of :: "(int \<Rightarrow> int \<Rightarrow> int) \<Rightarrow> int \<Rightarrow> int \<Rightarrow> int" where
  "rule_of c i j =
     (let neighbors = c (i - 1) (j - 1) + c (i - 1) j + c (i - 1) (j + 1) + c i (j - 1)
            + c i (j + 1) + c (i + 1) (j - 1) + c (i + 1) j + c (i + 1) (j + 1)
      in if c i j = 1 then (if neighbors = 2 \<or> neighbors = 3 then 1 else 0)
         else (if neighbors = 3 then 1 else 0))"

subsection \<open>Blinkers\<close>

text \<open>
  The three-cell blinker centred at \<open>(ci, cj)\<close> in a grid of logical size \<open>n\<close>: vertical (one
  column, rows \<open>ci - 1\<close> to \<open>ci + 1\<close>) and horizontal (one row, columns \<open>cj - 1\<close> to
  \<open>cj + 1\<close>); every other cell is dead.
\<close>

definition blinker_vertical :: "int \<Rightarrow> int \<Rightarrow> int \<Rightarrow> grid" where
  "blinker_vertical n ci cj =
     map (\<lambda>i. map (\<lambda>j. if j = cj \<and> (i = ci - 1 \<or> i = ci \<or> i = ci + 1) then 1 else 0)
       [0..n + 1]) [0..n + 1]"

definition blinker_horizontal :: "int \<Rightarrow> int \<Rightarrow> int \<Rightarrow> grid" where
  "blinker_horizontal n ci cj =
     map (\<lambda>i. map (\<lambda>j. if i = ci \<and> (j = cj - 1 \<or> j = cj \<or> j = cj + 1) then 1 else 0)
       [0..n + 1]) [0..n + 1]"

subsection \<open>Snapshots\<close>

text \<open>
  \<open>record_seq\<close> is a sequence of record operations: for each pair, \<open>save_state_to_history\<close>
  is called with that generation in the counter and that grid as the live grid.
  \<open>fits st g\<close>: every position of the stored grid \<open>st\<close> is a position of \<open>g\<close>.
  \<open>restored st old g\<close>: \<open>g\<close> has the shape of \<open>old\<close>, holds the cell of \<open>st\<close> at every position
  common to \<open>st\<close> and \<open>old\<close>, and the cell of \<open>old\<close> elsewhere.
\<close>

definition record_seq :: "(int \<times> grid) list \<Rightarrow> state \<Rightarrow> state" where
  "record_seq rs s =
     fold (\<lambda>r s. save_state_to_history (s\<lparr>gen_counter := fst r, core_T := snd r\<rparr>)) rs s"


definition restored :: "grid \<Rightarrow> grid \<Rightarrow> grid \<Rightarrow> bool" where
  "restored st old g =
     (map length g = map length old \<and>
      (\<forall>a\<in>set [0..<length old]. \<forall>b\<in>set [0..<length (old ! a)].
         g ! a ! b = (if a < length st \<and> b < length (st ! a) then st ! a ! b else old ! a ! b)))"





text \<open>
  A state with the given grids, size, counter and history, and with the three events clear.
\<close>

definition state_of :: "grid \<Rightarrow> grid \<Rightarrow> int \<Rightarrow> int \<Rightarrow> (int \<times> grid) list \<Rightarrow> state" where
  "state_of T Tn n g h =
     \<lparr>core_T = T, core_Tnext = Tn, core_n = n, gen_counter = g, generation_history = h,
      running = False, step_event = False, redraw_event = False\<rparr>"

section \<open>Indexing and cell writes\<close>


lemma restored_iff:
  "restored st old g =
     (map length g = map length old \<and>
      (\<forall>a<length old. \<forall>b<length (old ! a).
         g ! a ! b = (if a < length st \<and> b < length (st ! a) then st ! a ! b else old ! a ! b)))"
  by (auto simp add: restored_def)

lemma state_of_simps:
  "core_T (state_of T Tn n g h) = T" "core_Tnext (state_of T Tn n g h) = Tn"
  "core_n (state_of T Tn n g h) = n" "gen_counter (state_of T Tn n g h) = g"
  "generation_history (state_of T Tn n g h) = h"
  by (simp_all add: state_of_def)

lemma norm_index_nonneg: "0 \<le> i \<Longrightarrow> nat i < len \<Longrightarrow> norm_index len i = Some (nat i)"
  by (simp add: norm_index_def)

lemma getitem_in_range: "0 \<le> i \<Longrightarrow> nat i < length xs \<Longrightarrow> getitem xs i = Inr (xs ! nat i)"
  by (simp add: getitem_def norm_index_nonneg)

lemma setitem_in_range:
  "0 \<le> i \<Longrightarrow> nat i < length xs \<Longrightarrow> setitem xs i v = Inr (xs[nat i := v])"
  by (simp add: setitem_def norm_index_nonneg)

lemma grid_get_in_grid: "in_grid g (i, j) \<Longrightarrow> grid_get g i j = Inr (g ! nat i ! nat j)"
  by (simp add: in_grid_def grid_get_def ebind_def getitem_in_range)

lemma grid_set_in_grid: "in_grid g (i, j) \<Longrightarrow> grid_set g i j v = Inr (put g (i, j) v)"
  by (simp add: in_grid_def grid_set_def ebind_def getitem_in_range setitem_in_range put_def)

lemma length_put: "length (put g p v) = length g"
  by (simp add: put_def)

lemma put_row:
  "a < length g \<Longrightarrow>
   put g p v ! a = (if a = nat (fst p) then (g ! a)[nat (snd p) := v] else g ! a)"
  by (simp add: put_def nth_list_update)

lemma length_put_row: "a < length g \<Longrightarrow> length (put g p v ! a) = length (g ! a)"
  by (simp add: put_row)

lemma map_length_put: "map length (put g p v) = map length g"
  by (rule nth_equalityI) (simp_all add: length_put length_put_row)

lemma in_grid_put: "in_grid (put g p v) q = in_grid g q"
  by (auto simp add: in_grid_def length_put length_put_row)

lemma put_nth:
  "a < length g \<Longrightarrow> 0 \<le> fst p \<Longrightarrow> 0 \<le> snd p \<Longrightarrow> b < length (g ! a) \<Longrightarrow>
   put g p v ! a ! b = (if p = (int a, int b) then v else g ! a ! b)"
  by (cases p) (auto simp add: put_row nth_list_update)

text \<open>
  A loop of writes at positions of the grid never raises; it leaves the shape as it was and
  changes exactly the cells written.
\<close>

lemma efold_put:
  "\<forall>p\<in>set ps. in_grid g p \<Longrightarrow>
   efold (\<lambda>p g. grid_set g (fst p) (snd p) (f p)) ps g = Inr (fold (\<lambda>p g. put g p (f p)) ps g)"
proof (induction ps arbitrary: g)
  case Nil
  then show ?case by simp
next
  case (Cons p ps)
  have "in_grid g (fst p, snd p)" using Cons.prems by simp
  then have "grid_set g (fst p) (snd p) (f p) = Inr (put g p (f p))"
    using grid_set_in_grid[of g "fst p" "snd p"] by simp
  moreover have "\<forall>q\<in>set ps. in_grid (put g p (f p)) q"
    using Cons.prems by (simp add: in_grid_put)
  ultimately show ?case using Cons.IH by simp
qed

lemma map_length_fold_put: "map length (fold (\<lambda>p g. put g p (f p)) ps g) = map length g"
  by (induction ps arbitrary: g) (simp_all add: map_length_put)

lemma fold_put_nth:
  "\<forall>p\<in>set ps. in_grid g p \<Longrightarrow> a < length g \<Longrightarrow> b < length (g ! a) \<Longrightarrow>
   fold (\<lambda>p g. put g p (f p)) ps g ! a ! b =
     (if (int a, int b) \<in> set ps then f (int a, int b) else g ! a ! b)"
proof (induction ps arbitrary: g)
  case Nil
  then show ?case by simp
next
  case (Cons p ps)
  let ?g = "put g p (f p)"
  have p: "0 \<le> fst p" "0 \<le> snd p" using Cons.prems(1) by (simp_all add: in_grid_def)
  have ml: "map length ?g = map length g" by (rule map_length_put)
  have la: "length ?g = length g" by (rule length_put)
  have lb: "length (?g ! a) = length (g ! a)"
    using ml Cons.prems(2) la by (metis nth_map)
  have "fold (\<lambda>p g. put g p (f p)) ps ?g ! a ! b =
     (if (int a, int b) \<in> set ps then f (int a, int b) else ?g ! a ! b)"
    using Cons.prems by (intro Cons.IH) (simp_all add: in_grid_put la lb)
  moreover have "?g ! a ! b = (if p = (int a, int b) then f p else g ! a ! b)"
    using put_nth[OF Cons.prems(2) p Cons.prems(3)] .
  ultimately show ?case by auto
qed


lemma set_cells_of: "set (cells_of g) = {p. fst p < length g \<and> snd p < length (g ! fst p)}"
  by (auto simp add: cells_of_def)

lemma set_interior: "set (interior n) = {p. 1 \<le> fst p \<and> fst p \<le> n \<and> 1 \<le> snd p \<and> snd p \<le> n}"
  by (auto simp add: interior_def)

lemma grid_shape_in_grid:
  "grid_shape n g \<Longrightarrow> 0 \<le> i \<Longrightarrow> i \<le> n + 1 \<Longrightarrow> 0 \<le> j \<Longrightarrow> j \<le> n + 1 \<Longrightarrow> in_grid g (i, j)"
  by (simp add: grid_shape_def in_grid_def)

lemma in_grid_shape_nat:
  "grid_shape n g \<Longrightarrow> a < length g \<Longrightarrow> length (g ! a) = nat (n + 2)"
  by (simp add: grid_shape_def)

lemma binary_cells_nth:
  "binary_cells g \<Longrightarrow> in_grid g (i, j) \<Longrightarrow> g ! nat i ! nat j = 0 \<or> g ! nat i ! nat j = 1"
proof -
  assume b: "binary_cells g" and i: "in_grid g (i, j)"
  have "g ! nat i \<in> set g" using i by (simp add: in_grid_def)
  moreover have "g ! nat i ! nat j \<in> set (g ! nat i)" using i by (simp add: in_grid_def)
  ultimately show ?thesis using b unfolding binary_cells_def by blast
qed

lemma grid_shape_map_length:
  assumes "map length g' = map length g" and "grid_shape n g"
  shows "grid_shape n g'"
proof -
  have "length g' = length g" using assms(1) by (metis length_map)
  moreover have "length ` set g' = length ` set g" using assms(1) by (metis set_map)
  ultimately show ?thesis using assms(2) unfolding grid_shape_def by auto
qed

lemma grid_eqI:
  assumes "grid_shape n g" "grid_shape n g'"
    and "\<And>a b. a < nat (n + 2) \<Longrightarrow> b < nat (n + 2) \<Longrightarrow> g ! a ! b = g' ! a ! b"
  shows "g = g'"
proof (rule nth_equalityI)
  show "length g = length g'" using assms(1,2) by (simp add: grid_shape_def)
next
  fix a assume a: "a < length g"
  then have a': "a < nat (n + 2)" "a < length g'" using assms(1,2) by (simp_all add: grid_shape_def)
  have "length (g ! a) = nat (n + 2)" "length (g' ! a) = nat (n + 2)"
    using a a' assms(1,2) by (simp_all add: grid_shape_def)
  then show "g ! a = g' ! a"
    using assms(3)[OF a'(1)] by (intro nth_equalityI) simp_all
qed


lemma dead_border_nth:
  assumes "dead_border n g" "0 \<le> i" "i \<le> n + 1" "0 \<le> j" "j \<le> n + 1"
    and "i = 0 \<or> i = n + 1 \<or> j = 0 \<or> j = n + 1"
  shows "g ! nat i ! nat j = 0"
proof -
  have "i \<in> set [0..n + 1]" "j \<in> set [0..n + 1]" using assms(2-5) by simp_all
  then show ?thesis using assms(1,6) unfolding dead_border_def by blast
qed

lemma grid_fn_nth:
  "0 \<le> x \<Longrightarrow> x \<le> n + 1 \<Longrightarrow> 0 \<le> y \<Longrightarrow> y \<le> n + 1 \<Longrightarrow> grid_fn n c ! nat x ! nat y = c x y"
  by (simp add: grid_fn_def)

lemma grid_shape_grid_fn: "grid_shape n (grid_fn n c)"
  by (auto simp add: grid_shape_def grid_fn_def)

lemma dead_border_grid_fn:
  assumes "\<And>i j. 0 \<le> i \<Longrightarrow> i \<le> n + 1 \<Longrightarrow> 0 \<le> j \<Longrightarrow> j \<le> n + 1 \<Longrightarrow>
                  i = 0 \<or> i = n + 1 \<or> j = 0 \<or> j = n + 1 \<Longrightarrow> d i j = 0"
  shows "dead_border n (grid_fn n d)"
  unfolding dead_border_def using assms by (auto simp add: grid_fn_nth)

section \<open>Creating and clearing a grid\<close>

text \<open>
  \<open>make_grid\<close> returns an all-dead grid of the right shape, and \<open>clear_grid\<close> writes the
  interior only.
\<close>

lemma dead_border_make_grid: "dead_border n (make_grid n)"
  by (auto simp add: dead_border_def make_grid_def)

lemma grid_shape_make_grid: "grid_shape n (make_grid n)"
  by (simp add: grid_shape_def make_grid_def)

lemma clear_grid_cells:
  assumes shape: "grid_shape n g"
  shows "\<exists>g'. clear_grid n g = Inr g' \<and> grid_shape n g' \<and>
    (\<forall>a b. a < nat (n + 2) \<longrightarrow> b < nat (n + 2) \<longrightarrow>
       g' ! a ! b = (if (int a, int b) \<in> set (interior n) then 0 else g ! a ! b))"
proof -
  let ?g = "fold (\<lambda>p g. put g p ((\<lambda>_. 0) p)) (interior n) g"
  have ing: "\<forall>p\<in>set (interior n). in_grid g p"
  proof
    fix p assume "p \<in> set (interior n)"
    then have "in_grid g (fst p, snd p)"
      using shape by (intro grid_shape_in_grid[of n]) (simp_all add: set_interior)
    then show "in_grid g p" by simp
  qed
  have "clear_grid n g = Inr ?g"
    unfolding clear_grid_def using ing by (rule efold_put)
  moreover have "grid_shape n ?g"
    using map_length_fold_put shape by (rule grid_shape_map_length)
  moreover have "\<forall>a b. a < nat (n + 2) \<longrightarrow> b < nat (n + 2) \<longrightarrow>
       ?g ! a ! b = (if (int a, int b) \<in> set (interior n) then 0 else g ! a ! b)"
  proof (intro allI impI)
    fix a b assume ab: "a < nat (n + 2)" "b < nat (n + 2)"
    then have "a < length g" "b < length (g ! a)"
      using shape by (simp_all add: grid_shape_def)
    then show "?g ! a ! b = (if (int a, int b) \<in> set (interior n) then 0 else g ! a ! b)"
      using ing by (intro fold_put_nth)
  qed
  ultimately show ?thesis by blast
qed

lemma clear_grid_border:
  assumes "grid_shape n g" and "dead_border n g"
  shows "\<exists>g'. clear_grid n g = Inr g' \<and> dead_border n g'"
proof -
  obtain g' where g': "clear_grid n g = Inr g'"
    "\<forall>a b. a < nat (n + 2) \<longrightarrow> b < nat (n + 2) \<longrightarrow>
       g' ! a ! b = (if (int a, int b) \<in> set (interior n) then 0 else g ! a ! b)"
    using clear_grid_cells[OF assms(1)] by blast
  have "g' ! nat i ! nat j = 0"
    if ij: "i \<in> set [0..n + 1]" "j \<in> set [0..n + 1]"
      "i = 0 \<or> i = n + 1 \<or> j = 0 \<or> j = n + 1" for i j
  proof -
    have r: "0 \<le> i" "i \<le> n + 1" "0 \<le> j" "j \<le> n + 1" using ij(1,2) by simp_all
    then have "nat i < nat (n + 2)" "nat j < nat (n + 2)" by simp_all
    then have "g' ! nat i ! nat j =
        (if (int (nat i), int (nat j)) \<in> set (interior n) then 0 else g ! nat i ! nat j)"
      using g'(2) by blast
    then show ?thesis using dead_border_nth[OF assms(2) r ij(3)] by simp
  qed
  then have "dead_border n g'" unfolding dead_border_def by blast
  then show ?thesis using g'(1) by blast
qed

section \<open>The buffer swap\<close>

text \<open>
  C2. For every state, with grids \<open>current\<close> and \<open>next\<close> and generation counter \<open>g\<close>,
  the swap of the barrier action makes the grid that was \<open>next\<close> the grid read as
  \<open>current\<close> (and the old \<open>current\<close> the new \<open>next\<close>), and the counter is \<open>g + 1\<close>;
  the same holds after the whole barrier action.
\<close>

theorem swap_current_is_next:
  "core_T (swap_grids s) = core_Tnext s \<and>
   core_Tnext (swap_grids s) = core_T s \<and>
   gen_counter (swap_grids s) = gen_counter s + 1 \<and>
   fst (barrier_action None s) = None \<and>
   core_T (snd (barrier_action None s)) = core_Tnext s \<and>
   gen_counter (snd (barrier_action None s)) = gen_counter s + 1"
  by (simp add: swap_grids_def barrier_action_def after_snapshot_def
      save_state_to_history_def Let_def)

section \<open>Living cells\<close>

lemma any_alive_in_grid:
  "\<forall>p\<in>set ps. in_grid g p \<Longrightarrow>
   any_alive g ps = Inr (\<exists>p\<in>set ps. g ! nat (fst p) ! nat (snd p) = 1)"
proof (induction ps)
  case Nil
  then show ?case by simp
next
  case (Cons p ps)
  have "in_grid g (fst p, snd p)" using Cons.prems by simp
  then have "grid_get g (fst p) (snd p) = Inr (g ! nat (fst p) ! nat (snd p))"
    by (rule grid_get_in_grid)
  then show ?case using Cons by simp
qed

text \<open>
  C9. For every grid of shape \<open>(n + 2) \<times> (n + 2)\<close> with cells in \<open>{0, 1}\<close>,
  \<open>has_living_cells\<close> returns (it does not raise), and it returns False if and only if every
  interior cell, with both indices in \<open>1..n\<close>, is 0.
\<close>

theorem has_living_cells_false_iff:
  assumes shape: "grid_shape (core_n s) (core_T s)" and bin: "binary_cells (core_T s)"
  shows "(\<exists>b. has_living_cells s = Inr b) \<and>
    (has_living_cells s = Inr False \<longleftrightarrow>
      (\<forall>i j. 1 \<le> i \<and> i \<le> core_n s \<and> 1 \<le> j \<and> j \<le> core_n s \<longrightarrow>
         core_T s ! nat i ! nat j = 0))"
proof -
  let ?g = "core_T s" and ?n = "core_n s"
  define Q where
    "Q \<longleftrightarrow> (\<forall>i j. 1 \<le> i \<and> i \<le> ?n \<and> 1 \<le> j \<and> j \<le> ?n \<longrightarrow> ?g ! nat i ! nat j = 0)"
  have ing: "\<forall>p\<in>set (interior ?n). in_grid ?g p"
  proof
    fix p assume "p \<in> set (interior ?n)"
    then have "in_grid ?g (fst p, snd p)"
      using shape by (intro grid_shape_in_grid[of ?n]) (simp_all add: set_interior)
    then show "in_grid ?g p" by simp
  qed
  have val: "has_living_cells s =
      Inr (\<exists>p\<in>set (interior ?n). ?g ! nat (fst p) ! nat (snd p) = 1)"
    unfolding has_living_cells_def using ing by (rule any_alive_in_grid)
  have "(\<exists>p\<in>set (interior ?n). ?g ! nat (fst p) ! nat (snd p) = 1) \<longleftrightarrow> \<not> Q"
  proof
    assume "\<exists>p\<in>set (interior ?n). ?g ! nat (fst p) ! nat (snd p) = 1"
    then obtain p where "p \<in> set (interior ?n)" "?g ! nat (fst p) ! nat (snd p) = 1" by blast
    then have "1 \<le> fst p \<and> fst p \<le> ?n \<and> 1 \<le> snd p \<and> snd p \<le> ?n"
      "?g ! nat (fst p) ! nat (snd p) \<noteq> 0"
      by (simp_all add: set_interior)
    then show "\<not> Q" unfolding Q_def by blast
  next
    assume "\<not> Q"
    then obtain i j where ij: "1 \<le> i" "i \<le> ?n" "1 \<le> j" "j \<le> ?n" "?g ! nat i ! nat j \<noteq> 0"
      unfolding Q_def by blast
    then have "in_grid ?g (i, j)" using ing by (simp add: set_interior)
    then have "?g ! nat i ! nat j = 1" using binary_cells_nth[OF bin] ij(5) by blast
    then show "\<exists>p\<in>set (interior ?n). ?g ! nat (fst p) ! nat (snd p) = 1"
      using ij by (intro bexI[of _ "(i, j)"]) (simp_all add: set_interior)
  qed
  with val have "has_living_cells s = Inr (\<not> Q)" by simp
  then have "(\<exists>b. has_living_cells s = Inr b) \<and> (has_living_cells s = Inr False \<longleftrightarrow> Q)"
    by simp
  then show ?thesis unfolding Q_def .
qed

theorem has_living_cells_false_iff_witness:
  "grid_shape 1 [[0, 0, 0], [0, 1, 0], [0, 0, 0]] \<and>
   binary_cells [[0, 0, 0], [0, 1, 0], [0, 0, 0]] \<and>
   has_living_cells (state_of [[0, 0, 0], [0, 1, 0], [0, 0, 0]] (make_grid 1) 1 0 []) \<noteq> Inr False \<and>
   [[0, 0, 0], [0, 1, 0], [0, 0, 0]] ! nat 1 ! nat 1 \<noteq> (0::int)"
proof -
  let ?g = "[[0, 0, 0], [0, 1, 0], [0, 0, 0::int]]"
  let ?s = "state_of ?g (make_grid 1) 1 0 []"
  have h1: "grid_shape (core_n ?s) (core_T ?s)" by (simp add: state_of_simps grid_shape_def)
  have h2: "binary_cells (core_T ?s)" by (simp add: state_of_simps binary_cells_def)
  have c: "?g ! nat 1 ! nat 1 \<noteq> (0::int)" by simp
  have "has_living_cells ?s \<noteq> Inr False"
  proof
    assume a: "has_living_cells ?s = Inr False"
    have "\<forall>i j. 1 \<le> i \<and> i \<le> core_n ?s \<and> 1 \<le> j \<and> j \<le> core_n ?s \<longrightarrow>
        core_T ?s ! nat i ! nat j = 0"
      using has_living_cells_false_iff[OF h1 h2] a by blast
    then have "(1::int) \<le> 1 \<and> 1 \<le> core_n ?s \<and> (1::int) \<le> 1 \<and> 1 \<le> core_n ?s \<longrightarrow>
        core_T ?s ! nat 1 ! nat 1 = 0"
      by blast
    then show False by (simp add: state_of_simps)
  qed
  then show ?thesis using h1 h2 c by (simp add: state_of_simps)
qed

section \<open>One round of the cells\<close>

lemma cell_compute_interior:
  assumes shape: "grid_shape n (core_T s)"
    and ij: "1 \<le> i" "i \<le> n" "1 \<le> j" "j \<le> n"
    and nxt: "in_grid (core_Tnext s) (i, j)"
  shows "cell_compute i j s =
    Inr (s\<lparr>core_Tnext := put (core_Tnext s) (i, j) (code_value (core_T s) (i, j))\<rparr>)"
proof -
  have r: "\<And>a b. 0 \<le> a \<Longrightarrow> a \<le> n + 1 \<Longrightarrow> 0 \<le> b \<Longrightarrow> b \<le> n + 1 \<Longrightarrow>
      grid_get (core_T s) a b = Inr (core_T s ! nat a ! nat b)"
    using shape by (intro grid_get_in_grid grid_shape_in_grid[of n])
  have reads:
    "grid_get (core_T s) (i - 1) (j - 1) = Inr (core_T s ! nat (i - 1) ! nat (j - 1))"
    "grid_get (core_T s) (i - 1) j = Inr (core_T s ! nat (i - 1) ! nat j)"
    "grid_get (core_T s) (i - 1) (j + 1) = Inr (core_T s ! nat (i - 1) ! nat (j + 1))"
    "grid_get (core_T s) i (j - 1) = Inr (core_T s ! nat i ! nat (j - 1))"
    "grid_get (core_T s) i (j + 1) = Inr (core_T s ! nat i ! nat (j + 1))"
    "grid_get (core_T s) (i + 1) (j - 1) = Inr (core_T s ! nat (i + 1) ! nat (j - 1))"
    "grid_get (core_T s) (i + 1) j = Inr (core_T s ! nat (i + 1) ! nat j)"
    "grid_get (core_T s) (i + 1) (j + 1) = Inr (core_T s ! nat (i + 1) ! nat (j + 1))"
    "grid_get (core_T s) i j = Inr (core_T s ! nat i ! nat j)"
    using ij by (simp_all add: r)
  show ?thesis
    unfolding cell_compute_def code_value_def Let_def
    by (simp only: reads ebind_def sum.case grid_set_in_grid[OF nxt] fst_conv snd_conv)
qed

lemma run_cells_fold:
  assumes shape: "grid_shape n (core_T s)"
    and ps: "\<forall>p\<in>set ps. 1 \<le> fst p \<and> fst p \<le> n \<and> 1 \<le> snd p \<and> snd p \<le> n \<and>
               in_grid (core_Tnext s) p"
  shows "run_cells ps s =
    Inr (s\<lparr>core_Tnext := fold (\<lambda>p g. put g p (code_value (core_T s) p)) ps (core_Tnext s)\<rparr>)"
  using assms
proof (induction ps arbitrary: s)
  case Nil
  then show ?case by (simp add: run_cells_def)
next
  case (Cons p ps)
  let ?s1 = "s\<lparr>core_Tnext := put (core_Tnext s) p (code_value (core_T s) p)\<rparr>"
  have p: "1 \<le> fst p" "fst p \<le> n" "1 \<le> snd p" "snd p \<le> n" "in_grid (core_Tnext s) (fst p, snd p)"
    using Cons.prems(2) by simp_all
  have step: "cell_compute (fst p) (snd p) s = Inr ?s1"
    using cell_compute_interior[OF Cons.prems(1) p] by simp
  have "run_cells ps ?s1 =
    Inr (?s1\<lparr>core_Tnext := fold (\<lambda>p g. put g p (code_value (core_T ?s1) p)) ps (core_Tnext ?s1)\<rparr>)"
    using Cons.prems by (intro Cons.IH) (simp_all add: in_grid_put)
  then show ?case using step by (simp add: run_cells_def)
qed

lemma count_ones:
  "\<forall>p\<in>set ps. c p = 0 \<or> c p = (1::int) \<Longrightarrow>
   int (length (filter (\<lambda>p. c p = 1) ps)) = sum_list (map c ps)"
  by (induction ps) auto

lemma code_value_conway:
  assumes shape: "grid_shape n g" and bin: "binary_cells g"
    and ij: "1 \<le> i" "i \<le> n" "1 \<le> j" "j \<le> n"
  shows "code_value g (i, j) = conway_update g i j"
proof -
  let ?ps = "[(i - 1, j - 1), (i - 1, j), (i - 1, j + 1), (i, j - 1), (i, j + 1),
        (i + 1, j - 1), (i + 1, j), (i + 1, j + 1)]"
  let ?c = "\<lambda>p. g ! nat (fst p) ! nat (snd p)"
  have "\<forall>p\<in>set ?ps. in_grid g p"
    using ij by (auto intro!: grid_shape_in_grid[OF shape])
  then have "\<forall>p\<in>set ?ps. ?c p = 0 \<or> ?c p = 1"
    using binary_cells_nth[OF bin] by (metis prod.collapse)
  then have "int (length (filter (\<lambda>p. ?c p = 1) ?ps)) = sum_list (map ?c ?ps)"
    by (rule count_ones)
  then have k: "int (alive_neighbours g i j) =
      g ! nat (i - 1) ! nat (j - 1) + g ! nat (i - 1) ! nat j
            + g ! nat (i - 1) ! nat (j + 1) + g ! nat i ! nat (j - 1) + g ! nat i ! nat (j + 1)
            + g ! nat (i + 1) ! nat (j - 1) + g ! nat (i + 1) ! nat j
            + g ! nat (i + 1) ! nat (j + 1)"
    unfolding alive_neighbours_def by (simp only: list.map sum_list.Cons sum_list.Nil fst_conv snd_conv)
  have two: "\<And>m::nat. (int m = 2) = (m = 2)" and three: "\<And>m::nat. (int m = 3) = (m = 3)"
    by auto
  show ?thesis
    unfolding code_value_def conway_update_def Let_def fst_conv snd_conv k[symmetric] two three
    by simp
qed

lemma run_cells_result:
  assumes shape: "grid_shape n (core_T s)" and shape': "grid_shape n (core_Tnext s)"
    and ps: "\<forall>p\<in>set ps. 1 \<le> fst p \<and> fst p \<le> n \<and> 1 \<le> snd p \<and> snd p \<le> n"
  shows "\<exists>g. run_cells ps s = Inr (s\<lparr>core_Tnext := g\<rparr>) \<and> grid_shape n g \<and>
    (\<forall>a b. a < nat (n + 2) \<longrightarrow> b < nat (n + 2) \<longrightarrow>
       g ! a ! b = (if (int a, int b) \<in> set ps then code_value (core_T s) (int a, int b)
                    else core_Tnext s ! a ! b))"
proof -
  let ?f = "code_value (core_T s)"
  let ?g = "fold (\<lambda>p g. put g p (?f p)) ps (core_Tnext s)"
  have ing: "\<forall>p\<in>set ps. in_grid (core_Tnext s) p"
  proof
    fix p assume "p \<in> set ps"
    then have "in_grid (core_Tnext s) (fst p, snd p)"
      using ps by (intro grid_shape_in_grid[OF shape']) auto
    then show "in_grid (core_Tnext s) p" by simp
  qed
  have "run_cells ps s = Inr (s\<lparr>core_Tnext := ?g\<rparr>)"
    using shape ps ing by (intro run_cells_fold[of n]) auto
  moreover have "grid_shape n ?g"
    using map_length_fold_put shape' by (rule grid_shape_map_length)
  moreover have "\<forall>a b. a < nat (n + 2) \<longrightarrow> b < nat (n + 2) \<longrightarrow>
       ?g ! a ! b = (if (int a, int b) \<in> set ps then ?f (int a, int b) else core_Tnext s ! a ! b)"
  proof (intro allI impI)
    fix a b assume ab: "a < nat (n + 2)" "b < nat (n + 2)"
    then have "a < length (core_Tnext s)" "b < length (core_Tnext s ! a)"
      using shape' by (simp_all add: grid_shape_def)
    then show "?g ! a ! b =
        (if (int a, int b) \<in> set ps then ?f (int a, int b) else core_Tnext s ! a ! b)"
      using ing by (intro fold_put_nth)
  qed
  ultimately show ?thesis by blast
qed

text \<open>
  The order of the cells in a round does not matter: every order of the interior cells
  gives the state that \<open>compute_round\<close> gives.
\<close>

lemma run_cells_any_order:
  assumes shape: "grid_shape (core_n s) (core_T s)" and shape': "grid_shape (core_n s) (core_Tnext s)"
    and ps: "set ps = set (interior (core_n s))"
  shows "run_cells ps s = compute_round s"
proof -
  let ?n = "core_n s"
  have i: "\<forall>p\<in>set (interior ?n). 1 \<le> fst p \<and> fst p \<le> ?n \<and> 1 \<le> snd p \<and> snd p \<le> ?n"
    by (simp add: set_interior)
  then have i': "\<forall>p\<in>set ps. 1 \<le> fst p \<and> fst p \<le> ?n \<and> 1 \<le> snd p \<and> snd p \<le> ?n"
    using ps by simp
  obtain g where g: "run_cells (interior ?n) s = Inr (s\<lparr>core_Tnext := g\<rparr>)" "grid_shape ?n g"
    "\<forall>a b. a < nat (?n + 2) \<longrightarrow> b < nat (?n + 2) \<longrightarrow>
       g ! a ! b = (if (int a, int b) \<in> set (interior ?n)
                    then code_value (core_T s) (int a, int b) else core_Tnext s ! a ! b)"
    using run_cells_result[OF shape shape' i] by blast
  obtain g' where g': "run_cells ps s = Inr (s\<lparr>core_Tnext := g'\<rparr>)" "grid_shape ?n g'"
    "\<forall>a b. a < nat (?n + 2) \<longrightarrow> b < nat (?n + 2) \<longrightarrow>
       g' ! a ! b = (if (int a, int b) \<in> set ps
                    then code_value (core_T s) (int a, int b) else core_Tnext s ! a ! b)"
    using run_cells_result[OF shape shape' i'] by blast
  have "g' = g"
    using g'(2) g(2)
  proof (rule grid_eqI)
    fix a b assume "a < nat (?n + 2)" "b < nat (?n + 2)"
    then show "g' ! a ! b = g ! a ! b" using g(3) g'(3) ps by simp
  qed
  then show ?thesis using g(1) g'(1) by (simp add: compute_round_def)
qed

text \<open>
  C1. For a current grid of shape \<open>(n + 2) \<times> (n + 2)\<close> with cells in \<open>{0, 1}\<close> and a next
  grid of the same shape, one computation round returns, leaves the current grid as it was,
  and has written into the next grid, at every interior cell \<open>(i, j)\<close> with
  \<open>1 \<le> i, j \<le> n\<close>, the Conway update of the current grid: 1 if the cell is alive and
  exactly 2 or 3 of its 8 neighbours are alive, 1 if it is dead and exactly 3 are, 0 otherwise.
\<close>

theorem round_writes_conway_update:
  assumes shape: "grid_shape (core_n s) (core_T s)" and bin: "binary_cells (core_T s)"
    and shape': "grid_shape (core_n s) (core_Tnext s)"
  shows "\<exists>s'. compute_round s = Inr s' \<and> core_T s' = core_T s \<and>
    (\<forall>i j. 1 \<le> i \<and> i \<le> core_n s \<and> 1 \<le> j \<and> j \<le> core_n s \<longrightarrow>
       core_Tnext s' ! nat i ! nat j = conway_update (core_T s) i j)"
proof -
  let ?n = "core_n s"
  have "\<forall>p\<in>set (interior ?n). 1 \<le> fst p \<and> fst p \<le> ?n \<and> 1 \<le> snd p \<and> snd p \<le> ?n"
    by (simp add: set_interior)
  from run_cells_result[OF shape shape' this]
  obtain g where run: "run_cells (interior ?n) s = Inr (s\<lparr>core_Tnext := g\<rparr>)"
    and cells: "\<forall>a b. a < nat (?n + 2) \<longrightarrow> b < nat (?n + 2) \<longrightarrow>
       g ! a ! b = (if (int a, int b) \<in> set (interior ?n)
                    then code_value (core_T s) (int a, int b) else core_Tnext s ! a ! b)"
    by blast
  have "core_Tnext (s\<lparr>core_Tnext := g\<rparr>) ! nat i ! nat j = conway_update (core_T s) i j"
    if ij: "1 \<le> i \<and> i \<le> ?n \<and> 1 \<le> j \<and> j \<le> ?n" for i j
  proof -
    have "nat i < nat (?n + 2)" "nat j < nat (?n + 2)" using ij by simp_all
    then have "g ! nat i ! nat j =
        (if (int (nat i), int (nat j)) \<in> set (interior ?n)
         then code_value (core_T s) (int (nat i), int (nat j)) else core_Tnext s ! nat i ! nat j)"
      using cells by blast
    then have "g ! nat i ! nat j = code_value (core_T s) (i, j)"
      using ij by (simp add: set_interior)
    then show ?thesis
      using code_value_conway[OF shape bin, of i j] ij by simp
  qed
  then show ?thesis using run unfolding compute_round_def by auto
qed

theorem round_writes_conway_update_witness:
  "grid_shape 1 [[0, 0, 0], [0, 1, 0], [0, 0, 0]] \<and>
   binary_cells [[0, 0, 0], [0, 1, 0], [0, 0, 0]] \<and>
   grid_shape 1 (make_grid 1) \<and>
   (\<exists>s'. compute_round (state_of [[0, 0, 0], [0, 1, 0], [0, 0, 0]] (make_grid 1) 1 0 []) = Inr s' \<and>
      core_Tnext s' ! nat 1 ! nat 1 = conway_update [[0, 0, 0], [0, 1, 0], [0, 0, 0]] 1 1)"
proof -
  let ?g = "[[0, 0, 0], [0, 1, 0], [0, 0, 0::int]]"
  let ?s = "state_of ?g (make_grid 1) 1 0 []"
  have h1: "grid_shape (core_n ?s) (core_T ?s)" by (simp add: state_of_simps grid_shape_def)
  have h2: "binary_cells (core_T ?s)" by (simp add: state_of_simps binary_cells_def)
  have h3: "grid_shape (core_n ?s) (core_Tnext ?s)"
    by (simp add: state_of_simps grid_shape_def make_grid_def)
  from round_writes_conway_update[OF h1 h2 h3]
  obtain s' where "compute_round ?s = Inr s'"
    "\<forall>i j. 1 \<le> i \<and> i \<le> core_n ?s \<and> 1 \<le> j \<and> j \<le> core_n ?s \<longrightarrow>
       core_Tnext s' ! nat i ! nat j = conway_update (core_T ?s) i j"
    by blast
  then have "compute_round ?s = Inr s'"
    "(1::int) \<le> 1 \<and> 1 \<le> core_n ?s \<and> (1::int) \<le> 1 \<and> 1 \<le> core_n ?s \<longrightarrow>
       core_Tnext s' ! nat 1 ! nat 1 = conway_update (core_T ?s) 1 1"
    by blast+
  then have "compute_round ?s = Inr s' \<and> core_Tnext s' ! nat 1 ! nat 1 = conway_update ?g 1 1"
    by (simp add: state_of_simps)
  then show ?thesis using h1 h2 h3 by (auto simp add: state_of_simps)
qed

text \<open>
  One generation: the new current grid holds the computed values in the interior and the
  old next grid's cells on the border; a dead border stays dead.
\<close>

lemma generation_step_result:
  assumes shape: "grid_shape (core_n s) (core_T s)" and shape': "grid_shape (core_n s) (core_Tnext s)"
  shows "\<exists>s' g. generation_step s = Inr s' \<and> core_T s' = g \<and> core_Tnext s' = core_T s \<and>
    core_n s' = core_n s \<and> gen_counter s' = gen_counter s + 1 \<and> grid_shape (core_n s) g \<and>
    (\<forall>a b. a < nat (core_n s + 2) \<longrightarrow> b < nat (core_n s + 2) \<longrightarrow>
       g ! a ! b = (if (int a, int b) \<in> set (interior (core_n s))
                    then code_value (core_T s) (int a, int b) else core_Tnext s ! a ! b))"
proof -
  let ?n = "core_n s"
  have "\<forall>p\<in>set (interior ?n). 1 \<le> fst p \<and> fst p \<le> ?n \<and> 1 \<le> snd p \<and> snd p \<le> ?n"
    by (simp add: set_interior)
  from run_cells_result[OF shape shape' this]
  obtain g where run: "run_cells (interior ?n) s = Inr (s\<lparr>core_Tnext := g\<rparr>)"
    and gs: "grid_shape ?n g"
    and cells: "\<forall>a b. a < nat (?n + 2) \<longrightarrow> b < nat (?n + 2) \<longrightarrow>
       g ! a ! b = (if (int a, int b) \<in> set (interior ?n)
                    then code_value (core_T s) (int a, int b) else core_Tnext s ! a ! b)"
    by blast
  let ?s' = "after_snapshot (save_state_to_history (swap_grids (s\<lparr>core_Tnext := g\<rparr>)))"
  have "generation_step s = Inr ?s'"
    by (simp add: generation_step_def compute_round_def run ebind_def barrier_action_def)
  moreover have "core_T ?s' = g" "core_Tnext ?s' = core_T s" "core_n ?s' = core_n s"
    "gen_counter ?s' = gen_counter s + 1"
    by (simp_all add: after_snapshot_def save_state_to_history_def swap_grids_def Let_def)
  ultimately show ?thesis using gs cells by blast
qed

lemma generation_step_border:
  assumes "grid_shape (core_n s) (core_T s)" and "grid_shape (core_n s) (core_Tnext s)"
    and "dead_border (core_n s) (core_Tnext s)"
  shows "\<exists>s'. generation_step s = Inr s' \<and> dead_border (core_n s) (core_T s')"
proof -
  let ?n = "core_n s"
  obtain s' g where s': "generation_step s = Inr s'" "core_T s' = g"
    and cells: "\<forall>a b. a < nat (?n + 2) \<longrightarrow> b < nat (?n + 2) \<longrightarrow>
       g ! a ! b = (if (int a, int b) \<in> set (interior ?n)
                    then code_value (core_T s) (int a, int b) else core_Tnext s ! a ! b)"
    using generation_step_result[OF assms(1,2)] by blast
  have "g ! nat i ! nat j = 0"
    if ij: "i \<in> set [0..?n + 1]" "j \<in> set [0..?n + 1]"
      "i = 0 \<or> i = ?n + 1 \<or> j = 0 \<or> j = ?n + 1" for i j
  proof -
    have r: "0 \<le> i" "i \<le> ?n + 1" "0 \<le> j" "j \<le> ?n + 1" using ij(1,2) by simp_all
    then have "nat i < nat (?n + 2)" "nat j < nat (?n + 2)" by simp_all
    then have "g ! nat i ! nat j =
        (if (int (nat i), int (nat j)) \<in> set (interior ?n)
         then code_value (core_T s) (int (nat i), int (nat j)) else core_Tnext s ! nat i ! nat j)"
      using cells by blast
    moreover have "(i, j) \<notin> set (interior ?n)" using ij(3) by (auto simp add: set_interior)
    ultimately show ?thesis using dead_border_nth[OF assms(3) r ij(3)] r by simp
  qed
  then have "dead_border ?n g" unfolding dead_border_def by blast
  then show ?thesis using s' by blast
qed

section \<open>The blinker\<close>

lemma rule_vertical:
  "rule_of (\<lambda>x y. if y = cj \<and> (x = ci - 1 \<or> x = ci \<or> x = ci + 1) then 1 else 0) i j =
   (if i = ci \<and> (j = cj - 1 \<or> j = cj \<or> j = cj + 1) then 1 else 0)"
proof -
  consider "j < cj - 1" | "j = cj - 1" | "j = cj" | "j = cj + 1" | "cj + 1 < j" by linarith
  then show ?thesis
  proof cases
    case 1 then show ?thesis by (simp add: rule_of_def)
  next
    case 5 then show ?thesis by (simp add: rule_of_def)
  next
    case 2
    consider "i < ci - 2" | "i = ci - 2" | "i = ci - 1" | "i = ci" | "i = ci + 1" | "i = ci + 2"
      | "ci + 2 < i" by linarith
    then show ?thesis using 2 by cases (simp_all add: rule_of_def)
  next
    case 3
    consider "i < ci - 2" | "i = ci - 2" | "i = ci - 1" | "i = ci" | "i = ci + 1" | "i = ci + 2"
      | "ci + 2 < i" by linarith
    then show ?thesis using 3 by cases (simp_all add: rule_of_def)
  next
    case 4
    consider "i < ci - 2" | "i = ci - 2" | "i = ci - 1" | "i = ci" | "i = ci + 1" | "i = ci + 2"
      | "ci + 2 < i" by linarith
    then show ?thesis using 4 by cases (simp_all add: rule_of_def)
  qed
qed

lemma rule_horizontal:
  "rule_of (\<lambda>x y. if x = ci \<and> (y = cj - 1 \<or> y = cj \<or> y = cj + 1) then 1 else 0) i j =
   (if j = cj \<and> (i = ci - 1 \<or> i = ci \<or> i = ci + 1) then 1 else 0)"
proof -
  consider "i < ci - 1" | "i = ci - 1" | "i = ci" | "i = ci + 1" | "ci + 1 < i" by linarith
  then show ?thesis
  proof cases
    case 1 then show ?thesis by (simp add: rule_of_def)
  next
    case 5 then show ?thesis by (simp add: rule_of_def)
  next
    case 2
    consider "j < cj - 2" | "j = cj - 2" | "j = cj - 1" | "j = cj" | "j = cj + 1" | "j = cj + 2"
      | "cj + 2 < j" by linarith
    then show ?thesis using 2 by cases (simp_all add: rule_of_def)
  next
    case 3
    consider "j < cj - 2" | "j = cj - 2" | "j = cj - 1" | "j = cj" | "j = cj + 1" | "j = cj + 2"
      | "cj + 2 < j" by linarith
    then show ?thesis using 3 by cases (simp_all add: rule_of_def)
  next
    case 4
    consider "j < cj - 2" | "j = cj - 2" | "j = cj - 1" | "j = cj" | "j = cj + 1" | "j = cj + 2"
      | "cj + 2 < j" by linarith
    then show ?thesis using 4 by cases (simp_all add: rule_of_def)
  qed
qed

lemma code_value_rule_of:
  assumes "1 \<le> i" "i \<le> n" "1 \<le> j" "j \<le> n"
  shows "code_value (grid_fn n c) (i, j) = rule_of c i j"
  using assms by (simp add: code_value_def rule_of_def grid_fn_nth Let_def)

lemma generation_step_grid_fn:
  assumes T: "core_T s = grid_fn (core_n s) c"
    and shape': "grid_shape (core_n s) (core_Tnext s)"
    and border: "dead_border (core_n s) (core_Tnext s)"
    and inner: "\<And>i j. 1 \<le> i \<Longrightarrow> i \<le> core_n s \<Longrightarrow> 1 \<le> j \<Longrightarrow> j \<le> core_n s \<Longrightarrow>
                  rule_of c i j = d i j"
    and outer: "\<And>i j. 0 \<le> i \<Longrightarrow> i \<le> core_n s + 1 \<Longrightarrow> 0 \<le> j \<Longrightarrow> j \<le> core_n s + 1 \<Longrightarrow>
                  i = 0 \<or> i = core_n s + 1 \<or> j = 0 \<or> j = core_n s + 1 \<Longrightarrow> d i j = 0"
  shows "\<exists>s'. generation_step s = Inr s' \<and> core_T s' = grid_fn (core_n s) d \<and>
    core_Tnext s' = core_T s \<and> core_n s' = core_n s"
proof -
  let ?n = "core_n s"
  have shape: "grid_shape ?n (core_T s)" unfolding T by (rule grid_shape_grid_fn)
  from generation_step_result[OF shape shape']
  obtain s' g where step: "generation_step s = Inr s'" "core_T s' = g" "core_Tnext s' = core_T s"
    "core_n s' = ?n" and gs: "grid_shape ?n g"
    and cells: "\<forall>a b. a < nat (?n + 2) \<longrightarrow> b < nat (?n + 2) \<longrightarrow>
       g ! a ! b = (if (int a, int b) \<in> set (interior ?n)
                    then code_value (core_T s) (int a, int b) else core_Tnext s ! a ! b)"
    by blast
  have "g = grid_fn ?n d"
  proof (rule grid_eqI[OF gs grid_shape_grid_fn])
    fix a b assume ab: "a < nat (?n + 2)" "b < nat (?n + 2)"
    then have r: "0 \<le> int a" "int a \<le> ?n + 1" "0 \<le> int b" "int b \<le> ?n + 1" by simp_all
    have rhs: "grid_fn ?n d ! a ! b = d (int a) (int b)"
      using grid_fn_nth[OF r, of d] by simp
    have lhs: "g ! a ! b = (if (int a, int b) \<in> set (interior ?n)
                    then code_value (core_T s) (int a, int b) else core_Tnext s ! a ! b)"
      using cells ab by blast
    show "g ! a ! b = grid_fn ?n d ! a ! b"
    proof (cases "(int a, int b) \<in> set (interior ?n)")
      case True
      then have i: "1 \<le> int a" "int a \<le> ?n" "1 \<le> int b" "int b \<le> ?n"
        by (simp_all add: set_interior)
      have "code_value (core_T s) (int a, int b) = rule_of c (int a) (int b)"
        unfolding T using i by (rule code_value_rule_of)
      then show ?thesis using lhs rhs True inner[OF i] by simp
    next
      case False
      then have b: "int a = 0 \<or> int a = ?n + 1 \<or> int b = 0 \<or> int b = ?n + 1"
        using r by (simp add: set_interior) linarith
      have "core_Tnext s ! nat (int a) ! nat (int b) = 0"
        using dead_border_nth[OF border r b] .
      then show ?thesis using lhs rhs False outer[OF r b] by simp
    qed
  qed
  then show ?thesis using step by blast
qed

lemma blinker_vertical_grid_fn:
  "blinker_vertical n ci cj =
   grid_fn n (\<lambda>i j. if j = cj \<and> (i = ci - 1 \<or> i = ci \<or> i = ci + 1) then 1 else 0)"
  by (simp add: blinker_vertical_def grid_fn_def)

lemma blinker_horizontal_grid_fn:
  "blinker_horizontal n ci cj =
   grid_fn n (\<lambda>i j. if i = ci \<and> (j = cj - 1 \<or> j = cj \<or> j = cj + 1) then 1 else 0)"
  by (simp add: blinker_horizontal_def grid_fn_def)

text \<open>
  C8. For every grid size \<open>n\<close> and centre \<open>(ci, cj)\<close> with \<open>2 \<le> ci, cj \<le> n - 1\<close> (so that the
  blinker in both orientations lies in the interior), when the current grid is exactly the
  vertical blinker and the next buffer has the grid's shape and a dead border, one generation
  step yields exactly the horizontal blinker, and a second step yields exactly the vertical
  blinker again.
\<close>

theorem blinker_period_two:
  assumes c: "2 \<le> ci" "ci \<le> core_n s - 1" "2 \<le> cj" "cj \<le> core_n s - 1"
    and T: "core_T s = blinker_vertical (core_n s) ci cj"
    and shape': "grid_shape (core_n s) (core_Tnext s)"
    and border: "dead_border (core_n s) (core_Tnext s)"
  shows "\<exists>s1 s2. generation_step s = Inr s1 \<and>
    core_T s1 = blinker_horizontal (core_n s) ci cj \<and>
    generation_step s1 = Inr s2 \<and>
    core_T s2 = blinker_vertical (core_n s) ci cj"
proof -
  let ?n = "core_n s"
  let ?v = "\<lambda>i j. if j = cj \<and> (i = ci - 1 \<or> i = ci \<or> i = ci + 1) then 1 else (0::int)"
  let ?h = "\<lambda>i j. if i = ci \<and> (j = cj - 1 \<or> j = cj \<or> j = cj + 1) then 1 else (0::int)"
  have T': "core_T s = grid_fn ?n ?v" using T by (simp add: blinker_vertical_grid_fn)
  have hb: "?h i j = 0" if "i = 0 \<or> i = ?n + 1 \<or> j = 0 \<or> j = ?n + 1" for i j
    using that c by auto
  have vb: "?v i j = 0" if "i = 0 \<or> i = ?n + 1 \<or> j = 0 \<or> j = ?n + 1" for i j
    using that c by auto
  obtain s1 where s1: "generation_step s = Inr s1" "core_T s1 = grid_fn ?n ?h"
    "core_Tnext s1 = core_T s" "core_n s1 = ?n"
    using generation_step_grid_fn[OF T' shape' border rule_vertical hb] by blast
  have T1: "core_T s1 = grid_fn (core_n s1) ?h" using s1 by simp
  have shape1: "grid_shape (core_n s1) (core_Tnext s1)"
    using s1 T' by (simp add: grid_shape_grid_fn)
  have border1: "dead_border (core_n s1) (core_Tnext s1)"
    unfolding s1 T' using vb by (intro dead_border_grid_fn)
  have vb1: "?v i j = 0" if "i = 0 \<or> i = core_n s1 + 1 \<or> j = 0 \<or> j = core_n s1 + 1" for i j
    using that vb s1(4) by simp
  obtain s2 where s2: "generation_step s1 = Inr s2" "core_T s2 = grid_fn (core_n s1) ?v"
    using generation_step_grid_fn[OF T1 shape1 border1 rule_horizontal vb1] by blast
  show ?thesis
    using s1 s2 by (simp add: blinker_vertical_grid_fn blinker_horizontal_grid_fn)
qed

theorem blinker_period_two_witness:
  "(2::int) \<le> 2 \<and> (2::int) \<le> 3 - 1 \<and> grid_shape 3 (make_grid 3) \<and> dead_border 3 (make_grid 3) \<and>
   (\<exists>s1 s2.
      generation_step (state_of (blinker_vertical 3 2 2) (make_grid 3) 3 0 []) = Inr s1 \<and>
      core_T s1 = blinker_horizontal 3 2 2 \<and>
      generation_step s1 = Inr s2 \<and>
      core_T s2 = blinker_vertical 3 2 2)"
proof -
  let ?s = "state_of (blinker_vertical 3 2 2) (make_grid 3) 3 0 []"
  have c: "(2::int) \<le> 2" "(2::int) \<le> core_n ?s - 1" by (simp_all add: state_of_simps)
  have T: "core_T ?s = blinker_vertical (core_n ?s) 2 2" by (simp add: state_of_simps)
  have h1: "grid_shape (core_n ?s) (core_Tnext ?s)"
    by (simp add: state_of_simps grid_shape_def make_grid_def)
  have h2: "dead_border (core_n ?s) (core_Tnext ?s)"
    by (simp add: state_of_simps dead_border_make_grid)
  show ?thesis
    using blinker_period_two[OF c(1) c(2) c(1) c(2) T h1 h2] h1 h2
    by (simp add: state_of_simps)
qed

section \<open>The bounded history\<close>

lemma length_update_le: "length (AList.update k v al) \<le> Suc (length al)"
  by (induction al) auto

lemma length_delete_less:
  "k \<in> fst ` set al \<Longrightarrow> length (AList.delete k al) < length al"
  by (induction al) (auto simp add: AList.delete_eq le_imp_less_Suc)

lemma save_length_bound:
  assumes "length (generation_history s) \<le> MAX_HISTORY_GENERATIONS"
  shows "length (generation_history (save_state_to_history s)) \<le> MAX_HISTORY_GENERATIONS"
proof (cases "core_T s = []")
  case True
  then show ?thesis using assms by (simp add: save_state_to_history_def)
next
  case False
  let ?h = "AList.update (gen_counter s) (core_T s) (generation_history s)"
  have ne: "set (map fst ?h) \<noteq> {}" by simp
  have "Min (set (map fst ?h)) \<in> set (map fst ?h)" by (rule Min_in) (simp_all)
  then have "length (AList.delete (Min (set (map fst ?h))) ?h) < length ?h"
    by (intro length_delete_less) simp
  moreover have "length ?h \<le> Suc (length (generation_history s))" by (rule length_update_le)
  ultimately show ?thesis using False assms
    by (simp add: save_state_to_history_def Let_def)
qed

lemma record_seq_length_bound:
  "length (generation_history s) \<le> MAX_HISTORY_GENERATIONS \<Longrightarrow>
   length (generation_history (record_seq rs s)) \<le> MAX_HISTORY_GENERATIONS"
proof (induction rs arbitrary: s)
  case Nil
  then show ?case by (simp add: record_seq_def)
next
  case (Cons r rs)
  let ?s1 = "save_state_to_history (s\<lparr>gen_counter := fst r, core_T := snd r\<rparr>)"
  have "length (generation_history ?s1) \<le> MAX_HISTORY_GENERATIONS"
    using Cons.prems by (intro save_length_bound) simp
  then have "length (generation_history (record_seq rs ?s1)) \<le> MAX_HISTORY_GENERATIONS"
    by (rule Cons.IH)
  then show ?case by (simp add: record_seq_def)
qed

lemma save_evicts_min:
  assumes "core_T s \<noteq> []"
    and "length (AList.update (gen_counter s) (core_T s) (generation_history s)) >
           MAX_HISTORY_GENERATIONS"
  shows "set (map fst (generation_history (save_state_to_history s))) =
     set (map fst (AList.update (gen_counter s) (core_T s) (generation_history s))) -
       {Min (set (map fst (AList.update (gen_counter s) (core_T s) (generation_history s))))}"
  using assms by (simp add: save_state_to_history_def Let_def AList.delete_keys del: set_map)

lemma Min_int_upt: "a < b \<Longrightarrow> Min (set (map int [a..<b])) = int a"
  by (rule Min_eqI) auto

lemma save_keys:
  assumes T: "core_T s \<noteq> []" and keys: "map fst (generation_history s) = map int [a..<g]"
    and ag: "a \<le> g" "g - a \<le> 100" and c: "gen_counter s = int g"
  shows "map fst (generation_history (save_state_to_history s)) =
    map int [(if g - a = 100 then Suc a else a)..<Suc g]"
proof -
  let ?h = "AList.update (gen_counter s) (core_T s) (generation_history s)"
  have k1: "map fst ?h = map int [a..<Suc g]"
    using keys c ag by (auto simp add: AList.update_keys)
  have len: "length ?h = Suc g - a" using k1 by (metis length_map length_upt)
  show ?thesis
  proof (cases "g - a = 100")
    case True
    then have "length ?h > MAX_HISTORY_GENERATIONS" using len ag
      by (simp add: MAX_HISTORY_GENERATIONS_def)
    moreover have "Min (set (map fst ?h)) = int a"
      unfolding k1 using ag by (intro Min_int_upt) simp
    moreover have "removeAll (int a) (map int [a..<Suc g]) = map int [Suc a..<Suc g]"
    proof -
      have "int a \<notin> set (map int [Suc a..<Suc g])" by auto
      then have "removeAll (int a) (map int [Suc a..<Suc g]) = map int [Suc a..<Suc g]"
        by (rule removeAll_id)
      then show ?thesis using ag by (simp add: upt_conv_Cons[of a] del: upt_Suc)
    qed
    ultimately show ?thesis using T True k1
      by (simp add: save_state_to_history_def Let_def AList.delete_keys del: upt_Suc set_map)
  next
    case False
    then have "\<not> length ?h > MAX_HISTORY_GENERATIONS" using len ag
      by (simp add: MAX_HISTORY_GENERATIONS_def)
    then show ?thesis using T False k1
      by (simp add: save_state_to_history_def Let_def del: upt_Suc)
  qed
qed

lemma record_seq_keys:
  assumes "\<forall>x\<in>set gs. x \<noteq> []"
    and "map fst (generation_history s) = map int [a..<g]" and "a \<le> g" and "g - a \<le> 100"
  shows "map fst (generation_history
            (record_seq (zip (map int [g..<g + length gs]) gs) s)) =
         map int [max a (g + length gs - 100)..<g + length gs]"
  using assms
proof (induction gs arbitrary: s a g)
  case Nil
  have "max a (g - 100) = a" using Nil.prems(3,4) unfolding max_def by arith
  then show ?case using Nil.prems(2) by (simp add: record_seq_def)
next
  case (Cons x xs)
  let ?e = "s\<lparr>gen_counter := int g, core_T := x\<rparr>"
  let ?s1 = "save_state_to_history ?e"
  let ?a = "if g - a = 100 then Suc a else a"
  have x: "core_T ?e \<noteq> []" using Cons.prems(1) by simp
  have k1: "map fst (generation_history ?s1) = map int [?a..<Suc g]"
    using Cons.prems by (intro save_keys[OF x]) simp_all
  have a1: "?a \<le> Suc g" "Suc g - ?a \<le> 100" using Cons.prems(3,4) by auto
  have xs: "\<forall>x\<in>set xs. x \<noteq> []" using Cons.prems(1) by simp
  define n where "n = Suc g + length xs"
  have n: "g + length (x # xs) = n" by (simp add: n_def)
  have IH: "map fst (generation_history
            (record_seq (zip (map int [Suc g..<n]) xs) ?s1)) =
         map int [max ?a (n - 100)..<n]"
    unfolding n_def using xs k1 a1 by (rule Cons.IH)
  have "[g..<n] = g # [Suc g..<n]" unfolding n_def by (simp add: upt_conv_Cons del: upt_Suc)
  then have z: "zip (map int [g..<n]) (x # xs) = (int g, x) # zip (map int [Suc g..<n]) xs"
    by simp
  have m: "max ?a (n - 100) = max a (n - 100)"
    using Cons.prems(3,4) unfolding n_def max_def by auto
  have "record_seq (zip (map int [g..<n]) (x # xs)) s =
      record_seq (zip (map int [Suc g..<n]) xs) ?s1"
    unfolding z by (simp add: record_seq_def)
  then show ?case unfolding n using IH m by simp
qed

text \<open>
  C3. A history of at most \<open>MAX_HISTORY_GENERATIONS = 100\<close> entries has at most 100 entries
  after a record operation, and after any sequence of them. When the insertion makes the
  history longer than 100, the keys that remain are the keys after insertion without the
  smallest one. After recording \<open>100 + k\<close> non-empty grids, \<open>k > 0\<close>, at the generations
  \<open>0, 1, \<dots>, 100 + k - 1\<close> from an empty history, the history has exactly 100 entries and its
  smallest key is \<open>k\<close>.
\<close>

theorem history_bounded:
  "(length (generation_history s) \<le> MAX_HISTORY_GENERATIONS \<longrightarrow>
      length (generation_history (save_state_to_history s)) \<le> MAX_HISTORY_GENERATIONS \<and>
      length (generation_history (record_seq rs s)) \<le> MAX_HISTORY_GENERATIONS) \<and>
   (core_T s \<noteq> [] \<and>
    length (AList.update (gen_counter s) (core_T s) (generation_history s)) >
      MAX_HISTORY_GENERATIONS \<longrightarrow>
      set (map fst (generation_history (save_state_to_history s))) =
        set (map fst (AList.update (gen_counter s) (core_T s) (generation_history s))) -
          {Min (set (map fst (AList.update (gen_counter s) (core_T s) (generation_history s))))}) \<and>
   (0 < k \<and> length gs = MAX_HISTORY_GENERATIONS + k \<and> (\<forall>x\<in>set gs. x \<noteq> []) \<and>
    generation_history s0 = [] \<longrightarrow>
      length (generation_history
        (record_seq (zip (map int [0..<MAX_HISTORY_GENERATIONS + k]) gs) s0)) =
          MAX_HISTORY_GENERATIONS \<and>
      Min (set (map fst (generation_history
        (record_seq (zip (map int [0..<MAX_HISTORY_GENERATIONS + k]) gs) s0)))) = int k)"
proof (intro conjI impI)
  assume "length (generation_history s) \<le> MAX_HISTORY_GENERATIONS"
  then show "length (generation_history (save_state_to_history s)) \<le> MAX_HISTORY_GENERATIONS"
    and "length (generation_history (record_seq rs s)) \<le> MAX_HISTORY_GENERATIONS"
    by (rule save_length_bound, rule record_seq_length_bound)
next
  assume "core_T s \<noteq> [] \<and>
    length (AList.update (gen_counter s) (core_T s) (generation_history s)) >
      MAX_HISTORY_GENERATIONS"
  then show "set (map fst (generation_history (save_state_to_history s))) =
        set (map fst (AList.update (gen_counter s) (core_T s) (generation_history s))) -
          {Min (set (map fst (AList.update (gen_counter s) (core_T s) (generation_history s))))}"
    using save_evicts_min by blast
next
  assume a: "0 < k \<and> length gs = MAX_HISTORY_GENERATIONS + k \<and> (\<forall>x\<in>set gs. x \<noteq> []) \<and>
    generation_history s0 = []"
  let ?h = "generation_history
        (record_seq (zip (map int [0..<MAX_HISTORY_GENERATIONS + k]) gs) s0)"
  have "map fst (generation_history s0) = map int [0..<0]" using a by simp
  then have "map fst (generation_history (record_seq (zip (map int [0..<0 + length gs]) gs) s0)) =
      map int [max 0 (0 + length gs - 100)..<0 + length gs]"
    using a by (intro record_seq_keys) simp_all
  then have keys: "map fst ?h = map int [k..<100 + k]"
    using a by (simp add: MAX_HISTORY_GENERATIONS_def)
  have "length (map fst ?h) = 100" unfolding keys by simp
  then show "length ?h = MAX_HISTORY_GENERATIONS"
    by (simp add: MAX_HISTORY_GENERATIONS_def)
  show "Min (set (map fst ?h)) = int k"
    unfolding keys by (rule Min_int_upt) simp
qed

theorem history_bounded_witness:
  "length (generation_history
     (state_of [[0::int]] [[0::int]] 0 100 (map (\<lambda>i. (int i, [[0::int]])) [0..<100]))) \<le> MAX_HISTORY_GENERATIONS \<and>
   length (AList.update 100 [[0::int]] (map (\<lambda>i. (int i, [[0::int]])) [0..<100])) > MAX_HISTORY_GENERATIONS \<and>
   length (replicate 101 [[0::int]]) = MAX_HISTORY_GENERATIONS + 1 \<and>
   [] \<notin> set (replicate 101 [[0::int]]) \<and>
   length (generation_history (save_state_to_history
     (state_of [[0::int]] [[0::int]] 0 100 (map (\<lambda>i. (int i, [[0::int]])) [0..<100])))) \<le> MAX_HISTORY_GENERATIONS \<and>
   Min (set (map fst (AList.update 100 [[0::int]] (map (\<lambda>i. (int i, [[0::int]])) [0..<100])))) \<notin>
     set (map fst (generation_history (save_state_to_history
       (state_of [[0::int]] [[0::int]] 0 100 (map (\<lambda>i. (int i, [[0::int]])) [0..<100]))))) \<and>
   length (generation_history
        (record_seq (zip (map int [0..<MAX_HISTORY_GENERATIONS + 1]) (replicate 101 [[0::int]]))
           (state_of [[0::int]] [[0::int]] 0 0 []))) = MAX_HISTORY_GENERATIONS \<and>
   Min (set (map fst (generation_history
        (record_seq (zip (map int [0..<MAX_HISTORY_GENERATIONS + 1]) (replicate 101 [[0::int]]))
           (state_of [[0::int]] [[0::int]] 0 0 []))))) = int 1"
proof -
  let ?h = "map (\<lambda>i. (int i, [[0::int]])) [0..<100]"
  let ?s = "state_of [[0]] [[0]] 0 100 ?h"
  let ?e = "state_of [[0]] [[0]] 0 0 []"
  let ?gs = "replicate 101 [[0::int]]"
  have h1: "length (generation_history ?s) \<le> MAX_HISTORY_GENERATIONS"
    by (simp only: state_of_simps MAX_HISTORY_GENERATIONS_def length_map length_upt)
  have "map fst (AList.update 100 [[0]] ?h) = map fst ?h @ [100]"
    by (auto simp add: AList.update_keys)
  then have "length (map fst (AList.update 100 [[0]] ?h)) = length (map fst ?h @ [100])"
    by (rule arg_cong)
  then have l: "length (AList.update 100 [[0]] ?h) = 101"
    by (simp only: length_map length_append length_upt list.size)
  have h2a: "core_T ?s \<noteq> []" by (simp add: state_of_simps)
  have "length (AList.update (gen_counter ?s) (core_T ?s) (generation_history ?s)) = 101"
    unfolding state_of_simps by (rule l)
  then have h2: "core_T ?s \<noteq> [] \<and>
      length (AList.update (gen_counter ?s) (core_T ?s) (generation_history ?s)) >
        MAX_HISTORY_GENERATIONS"
    using h2a unfolding MAX_HISTORY_GENERATIONS_def by linarith
  have h3: "0 < (1::nat) \<and> length ?gs = MAX_HISTORY_GENERATIONS + 1 \<and>
      (\<forall>x\<in>set ?gs. x \<noteq> []) \<and> generation_history ?e = []"
    by (simp add: state_of_simps MAX_HISTORY_GENERATIONS_def)
  let ?u = "AList.update (gen_counter ?s) (core_T ?s) (generation_history ?s)"
  let ?r = "record_seq (zip (map int [0..<MAX_HISTORY_GENERATIONS + 1]) ?gs) ?e"
  note hb = history_bounded[of ?s "[]" 1 ?gs ?e]
  note a = mp[OF conjunct1[OF hb] h1]
  note c1 = conjunct1[OF a]
  note c2 = mp[OF conjunct1[OF conjunct2[OF hb]] h2]
  note c = mp[OF conjunct2[OF conjunct2[OF hb]] h3]
  note c3 = conjunct1[OF c]
  note c4 = conjunct2[OF c]
  have u: "?u = AList.update 100 [[0]] ?h" by (simp only: state_of_simps)
  have c2': "Min (set (map fst (AList.update 100 [[0]] ?h))) \<notin>
     set (map fst (generation_history (save_state_to_history ?s)))"
    using c2 unfolding u by (simp only: Diff_iff singleton_iff) simp
  have h2': "length (AList.update 100 [[0]] ?h) > MAX_HISTORY_GENERATIONS"
    using h2 unfolding u by (rule conjunct2)
  note h3' = conjunct1[OF conjunct2[OF h3]]
  have h3'': "[] \<notin> set ?gs" by simp
  show ?thesis
    by (intro conjI h1 h2' h3' h3'' c1 c2' c3 c4)
qed

section \<open>Undo and redo\<close>

















text \<open>
  C10. For every state and every direction other than \<open>undo\<close> and \<open>redo\<close>,
  \<open>load_state_from_history\<close> returns False and the state (live grid, counter, history and
  redraw event) is unchanged.
\<close>

theorem navigate_unknown_direction:
  "direction \<noteq> ''undo'' \<Longrightarrow> direction \<noteq> ''redo'' \<Longrightarrow>
   load_state_from_history direction s = Inr (False, s)"
  by (simp add: load_state_from_history_def)

theorem navigate_unknown_direction_witness:
  "''left'' \<noteq> ''undo'' \<and> ''left'' \<noteq> ''redo'' \<and>
   load_state_from_history ''left'' (state_of (make_grid 1) (make_grid 1) 1 0 [(0, make_grid 1)]) =
     Inr (False, state_of (make_grid 1) (make_grid 1) 1 0 [(0, make_grid 1)])"
  using navigate_unknown_direction[of "''left''"
      "state_of (make_grid 1) (make_grid 1) 1 0 [(0, make_grid 1)]"]
  by simp

section \<open>The history file\<close>

lemma digit_val_digit_char: "d < 10 \<Longrightarrow> digit_val (digit_char d) = Some d"
  by (simp add: digit_val_def digit_char_def Let_def)

lemma digit_char_not_sign: "d < 10 \<Longrightarrow> digit_char d \<noteq> CHR ''-'' \<and> digit_char d \<noteq> CHR ''+''"
proof -
  assume d: "d < 10"
  have "digit_val (CHR ''-'') = None" "digit_val (CHR ''+'') = None"
    by (simp_all add: digit_val_def)
  then show ?thesis using digit_val_digit_char[OF d] by auto
qed

lemma parse_digits_snoc:
  "parse_digits acc (cs @ [c]) =
     (case parse_digits acc cs of
        None \<Rightarrow> None
      | Some m \<Rightarrow> (case digit_val c of None \<Rightarrow> None | Some d \<Rightarrow> Some (10 * m + d)))"
  by (induction cs arbitrary: acc) (auto split: option.splits)

lemma parse_digits_str_nat: "parse_digits 0 (str_nat n) = Some n"
proof (induction n rule: str_nat.induct)
  case (1 n)
  show ?case
  proof (cases "n < 10")
    case True
    then show ?thesis by (simp add: str_nat.simps[of n] digit_val_digit_char)
  next
    case False
    then have "parse_digits 0 (str_nat (n div 10)) = Some (n div 10)" by (rule "1.IH")
    then show ?thesis using False
      by (simp add: str_nat.simps[of n] parse_digits_snoc digit_val_digit_char)
  qed
qed

lemma str_nat_hd: "\<exists>d cs. d < 10 \<and> str_nat n = digit_char d # cs"
proof (induction n rule: str_nat.induct)
  case (1 n)
  show ?case
  proof (cases "n < 10")
    case True
    then show ?thesis by (auto simp add: str_nat.simps[of n])
  next
    case False
    then obtain d cs where "d < 10" "str_nat (n div 10) = digit_char d # cs"
      using "1.IH" by blast
    then show ?thesis using False by (auto simp add: str_nat.simps[of n])
  qed
qed

lemma py_int_py_str: "py_int (py_str i) = Inr i"
proof (cases "i < 0")
  case True
  obtain d cs where "str_nat (nat (- i)) = digit_char d # cs" using str_nat_hd by blast
  then have "str_nat (nat (- i)) \<noteq> []" by simp
  then show ?thesis using True
    by (simp add: py_int_def py_str_def parse_digits_str_nat)
next
  case False
  obtain d cs where d: "d < 10" "str_nat (nat i) = digit_char d # cs" using str_nat_hd by blast
  have "parse_digits 0 (digit_char d # cs) = Some (nat i)"
    using parse_digits_str_nat[of "nat i"] d(2) by simp
  then show ?thesis using False d digit_char_not_sign[OF d(1)]
    by (simp add: py_int_def py_str_def)
qed

lemma py_str_inj: "py_str i = py_str j \<Longrightarrow> i = j"
  by (metis py_int_py_str sum.inject(2))

lemma update_append: "k \<notin> fst ` set al \<Longrightarrow> AList.update k v al = al @ [(k, v)]"
  by (induction al) auto

lemma fold_update_distinct:
  "distinct (map fst (acc @ xs)) \<Longrightarrow>
   fold (\<lambda>item d. AList.update (fst item) (snd item) d) xs acc = acc @ xs"
proof (induction xs arbitrary: acc)
  case Nil
  then show ?case by simp
next
  case (Cons x xs)
  have "fst x \<notin> fst ` set acc" using Cons.prems by auto
  then have "AList.update (fst x) (snd x) acc = acc @ [x]" by (simp add: update_append)
  moreover have "distinct (map fst ((acc @ [x]) @ xs))" using Cons.prems by simp
  ultimately show ?case using Cons.IH[of "acc @ [x]"] by simp
qed

lemma save_history_data:
  assumes "distinct (map fst h)"
  shows "fold (\<lambda>item d. AList.update (py_str (fst item)) (snd item) d) h [] =
     map (\<lambda>item. (py_str (fst item), snd item)) h"
proof -
  let ?h = "map (\<lambda>item. (py_str (fst item), snd item)) h"
  have "map fst ?h = map py_str (map fst h)" by simp
  moreover have "distinct (map py_str (map fst h))"
    using assms by (simp add: distinct_map inj_on_def py_str_inj del: map_map)
  ultimately have "distinct (map fst ?h)" by (simp only:)
  then have "distinct (map fst ([] @ ?h))" by (simp only: append_Nil)
  then have "fold (\<lambda>item d. AList.update (fst item) (snd item) d) ?h [] = [] @ ?h"
    by (rule fold_update_distinct)
  then show ?thesis by (simp add: fold_map comp_def)
qed

lemma load_history_data:
  "efold (\<lambda>item d. ebind (py_int (fst item)) (\<lambda>gen. Inr (AList.update gen (snd item) d)))
     (map (\<lambda>item. (py_str (fst item), snd item)) h) acc =
   Inr (fold (\<lambda>item d. AList.update (fst item) (snd item) d) h acc)"
  by (induction h arbitrary: acc) (simp_all add: py_int_py_str ebind_def)

lemma restore_clipped_gen:
  "\<exists>g'. efold (\<lambda>p g. if fst p < length g \<and> snd p < length (g ! fst p)
                   then grid_set g (int (fst p)) (int (snd p)) (sg ! fst p ! snd p)
                   else Inr g) ps g = Inr g' \<and>
     map length g' = map length g \<and>
     (\<forall>a<length g. \<forall>b<length (g ! a).
        g' ! a ! b = (if (a, b) \<in> set ps then sg ! a ! b else g ! a ! b))"
proof (induction ps arbitrary: g)
  case Nil
  then show ?case by simp
next
  case (Cons p ps)
  let ?body = "\<lambda>p g. if fst p < length g \<and> snd p < length (g ! fst p)
                   then grid_set g (int (fst p)) (int (snd p)) (sg ! fst p ! snd p)
                   else Inr g"
  show ?case
  proof (cases "fst p < length g \<and> snd p < length (g ! fst p)")
    case True
    let ?q = "(int (fst p), int (snd p))"
    let ?g1 = "put g ?q (sg ! fst p ! snd p)"
    have "in_grid g ?q" using True by (simp add: in_grid_def)
    then have b: "?body p g = Inr ?g1" using True by (simp add: grid_set_in_grid)
    obtain g' where g': "efold ?body ps ?g1 = Inr g'" "map length g' = map length ?g1"
      "\<forall>a<length ?g1. \<forall>b<length (?g1 ! a).
        g' ! a ! b = (if (a, b) \<in> set ps then sg ! a ! b else ?g1 ! a ! b)"
      using Cons.IH[of ?g1] by blast
    have e: "efold ?body (p # ps) g = Inr g'" using b g'(1) by simp
    have m: "map length g' = map length g" using g'(2) by (simp add: map_length_put)
    have "g' ! a ! b = (if (a, b) \<in> set (p # ps) then sg ! a ! b else g ! a ! b)"
      if ab: "a < length g" "b < length (g ! a)" for a b
    proof -
      have "g' ! a ! b = (if (a, b) \<in> set ps then sg ! a ! b else ?g1 ! a ! b)"
        using g'(3) ab by (simp add: length_put length_put_row)
      moreover have "?g1 ! a ! b = (if ?q = (int a, int b) then sg ! fst p ! snd p else g ! a ! b)"
        using ab by (intro put_nth) simp_all
      ultimately show ?thesis by (cases p) auto
    qed
    then show ?thesis using e m by blast
  next
    case False
    then have b: "?body p g = Inr g" by auto
    obtain g' where g': "efold ?body ps g = Inr g'" "map length g' = map length g"
      "\<forall>a<length g. \<forall>b<length (g ! a).
        g' ! a ! b = (if (a, b) \<in> set ps then sg ! a ! b else g ! a ! b)"
      using Cons.IH[of g] by blast
    have e: "efold ?body (p # ps) g = Inr g'" using b g'(1) by simp
    have "g' ! a ! b = (if (a, b) \<in> set (p # ps) then sg ! a ! b else g ! a ! b)"
      if ab: "a < length g" "b < length (g ! a)" for a b
    proof -
      have "(a, b) \<noteq> p" using False ab by auto
      then show ?thesis using g'(3) ab by simp
    qed
    then show ?thesis using e g'(2) by blast
  qed
qed

lemma restore_clipped_cells:
  "\<exists>g'. restore_clipped saved_grid g = Inr g' \<and> restored saved_grid g g'"
proof -
  obtain g' where g': "restore_clipped saved_grid g = Inr g'" "map length g' = map length g"
    "\<forall>a<length g. \<forall>b<length (g ! a).
        g' ! a ! b = (if (a, b) \<in> set (cells_of saved_grid) then saved_grid ! a ! b else g ! a ! b)"
    unfolding restore_clipped_def using restore_clipped_gen[of saved_grid "cells_of saved_grid" g]
    by blast
  have "restored saved_grid g g'"
    unfolding restored_iff using g'(2,3) by (simp add: set_cells_of)
  then show ?thesis using g'(1) by blast
qed

lemma restored_refl: "st = [] \<or> old = [] \<Longrightarrow> restored st old old"
  by (auto simp add: restored_iff)

text \<open>
  C5. For every state \<open>s\<close> whose history has one entry per generation, writing the history
  file (the write succeeding) and loading it into any other state \<open>s'\<close> gives a state with the
  history of \<open>s\<close>, entry for entry, and the counter of \<open>s\<close>. The load does not raise on a
  size mismatch: the live grid keeps its shape, takes the saved cell at every position common
  to the saved and the live grid, and keeps its own cell elsewhere.
\<close>

theorem persist_load_roundtrip:
  assumes "distinct (map fst (generation_history s))"
  shows "\<exists>g. load_history_from_file (save_history_to_file True s file) s' =
      s'\<lparr>core_T := g, gen_counter := gen_counter s,
         generation_history := generation_history s\<rparr> \<and>
    restored (core_T s) (core_T s') g"
proof -
  let ?h = "generation_history s"
  let ?d = "map (\<lambda>item. (py_str (fst item), snd item)) ?h"
  have sv: "save_history_to_file True s file =
      Document \<lparr>doc_history = Some ?d, doc_current_gen = Some (gen_counter s),
                doc_grid_state = Some (core_T s)\<rparr>"
    by (simp add: save_history_to_file_def save_history_data[OF assms])
  have "fold (\<lambda>item d. AList.update (fst item) (snd item) d) ?h [] = [] @ ?h"
    using assms by (intro fold_update_distinct) simp
  then have ld: "efold (\<lambda>item d. ebind (py_int (fst item))
        (\<lambda>gen. Inr (AList.update gen (snd item) d))) ?d [] = Inr ?h"
    by (simp add: load_history_data)
  let ?s1 = "s'\<lparr>generation_history := ?h, gen_counter := gen_counter s\<rparr>"
  show ?thesis
  proof (cases "core_T s \<noteq> [] \<and> core_T s' \<noteq> []")
    case True
    obtain g where g: "restore_clipped (core_T s) (core_T s') = Inr g"
      "restored (core_T s) (core_T s') g"
      using restore_clipped_cells by blast
    have "load_history_from_file (save_history_to_file True s file) s' =
        s'\<lparr>core_T := g, gen_counter := gen_counter s, generation_history := ?h\<rparr>"
      unfolding sv using True g(1) by (simp add: load_history_from_file_def ld)
    then show ?thesis using g(2) by blast
  next
    case False
    have "load_history_from_file (save_history_to_file True s file) s' =
        s'\<lparr>core_T := core_T s', gen_counter := gen_counter s, generation_history := ?h\<rparr>"
      unfolding sv using False by (auto simp add: load_history_from_file_def ld)
    moreover have "restored (core_T s) (core_T s') (core_T s')"
      using False by (intro restored_refl) auto
    ultimately show ?thesis by blast
  qed
qed

theorem persist_load_roundtrip_witness:
  "distinct (map fst [(0::int, [[0, 0, 0], [0, 1, 0], [0, 0, 0::int]]), (2, make_grid 1)]) \<and>
   (\<exists>g. load_history_from_file
          (save_history_to_file True
             (state_of [[0, 0, 0], [0, 1, 0], [0, 0, 0]] (make_grid 1) 1 2
                [(0, [[0, 0, 0], [0, 1, 0], [0, 0, 0]]), (2, make_grid 1)]) Missing)
          (state_of (make_grid 0) (make_grid 0) 0 0 []) =
        (state_of (make_grid 0) (make_grid 0) 0 0 [])
          \<lparr>core_T := g, gen_counter := 2,
           generation_history := [(0, [[0, 0, 0], [0, 1, 0], [0, 0, 0]]), (2, make_grid 1)]\<rparr> \<and>
        restored [[0, 0, 0], [0, 1, 0], [0, 0, 0]] (make_grid 0) g)"
proof -
  let ?A = "[[0, 0, 0], [0, 1, 0], [0, 0, 0::int]]"
  let ?H = "[(0::int, ?A), (2, make_grid 1)]"
  let ?a = "state_of ?A (make_grid 1) 1 2 ?H"
  have d: "distinct (map fst (generation_history ?a))" by (simp add: state_of_simps)
  have d': "distinct (map fst ?H)" by simp
  show ?thesis
    using persist_load_roundtrip[OF d, of Missing "state_of (make_grid 0) (make_grid 0) 0 0 []"] d'
    by (simp only: state_of_simps)
qed

text \<open>
  C7 fails on loading a file saved from a larger grid. The file is written from a grid of
  size 2 whose interior cell (2, 2) is alive, and loaded into an all-dead live grid of size
  1: the clipping keeps the positions that exist in the live grid, border included, so the
  saved cell lands on the live grid's border cell (2, 2), which is alive afterwards.
\<close>

theorem load_history_from_file_border_failure:
  "core_T (state_of (make_grid 1) (make_grid 1) 1 0 []) ! 2 ! 2 = 0 \<and>
   core_T (load_history_from_file
     (save_history_to_file True
        (state_of [[0, 0, 0, 0], [0, 0, 0, 0], [0, 0, 1, 0], [0, 0, 0, 0]] (make_grid 2) 2 0
           [(0, [[0, 0, 0, 0], [0, 0, 0, 0], [0, 0, 1, 0], [0, 0, 0, 0]])]) Missing)
     (state_of (make_grid 1) (make_grid 1) 1 0 [])) =
     [[0, 0, 0], [0, 0, 0], [0, 0, 1]] \<and>
   core_T (load_history_from_file
     (save_history_to_file True
        (state_of [[0, 0, 0, 0], [0, 0, 0, 0], [0, 0, 1, 0], [0, 0, 0, 0]] (make_grid 2) 2 0
           [(0, [[0, 0, 0, 0], [0, 0, 0, 0], [0, 0, 1, 0], [0, 0, 0, 0]])]) Missing)
     (state_of (make_grid 1) (make_grid 1) 1 0 [])) ! 2 ! 2 = 1"
  by code_simp

text \<open>
  In the terms of \<open>dead_border\<close>: the live grid's border is dead before the load and is not
  afterwards.
\<close>

lemma load_history_from_file_border_alive:
  "dead_border 1 (core_T (state_of (make_grid 1) (make_grid 1) 1 0 [])) \<and>
   \<not> dead_border 1 (core_T (load_history_from_file
     (save_history_to_file True
        (state_of [[0, 0, 0, 0], [0, 0, 0, 0], [0, 0, 1, 0], [0, 0, 0, 0]] (make_grid 2) 2 0
           [(0, [[0, 0, 0, 0], [0, 0, 0, 0], [0, 0, 1, 0], [0, 0, 0, 0]])]) Missing)
     (state_of (make_grid 1) (make_grid 1) 1 0 [])))"
  by code_simp

section \<open>Errors in the barrier action\<close>



end
